theory Spec2Isabelle
  imports Complex_Main "HOL-Library.Multiset" "HOL-Library.Char_ord"
begin

section \<open>JavaScript string and array primitives used by the position pipeline\<close>

text \<open>
  Strings are lists of characters.  \<open>split c s\<close> is \<^verbatim>\<open>s.split(c)\<close> for a one-character
  separator: it never returns the empty array, and the empty string splits into one empty
  field.  \<open>join c xs\<close> is \<^verbatim>\<open>xs.join(c)\<close>.
\<close>

fun split :: "char \<Rightarrow> string \<Rightarrow> string list" where
  "split c [] = [[]]"
| "split c (x # xs) =
     (if x = c then [] # split c xs
      else (case split c xs of [] \<Rightarrow> [[x]] | y # ys \<Rightarrow> (x # y) # ys))"

fun join :: "char \<Rightarrow> string list \<Rightarrow> string" where
  "join c [] = []"
| "join c [x] = x"
| "join c (x # y # ys) = x @ c # join c (y # ys)"

text \<open>\<^verbatim>\<open>s[i]\<close> on a string: \<open>None\<close> stands for \<^verbatim>\<open>undefined\<close> (index out of range).\<close>

definition charAt :: "string \<Rightarrow> nat \<Rightarrow> char option" where
  "charAt s i = (if i < length s then Some (s ! i) else None)"

text \<open>
  \<^verbatim>\<open>xs[i] = v\<close> on an array: an index past the end extends the array, the gap being
  holes.  The only consumer of such an array here is \<^verbatim>\<open>join\<close>, which prints a hole as
  the empty string, so a hole is modelled as the empty string.
\<close>

definition setIndex :: "string list \<Rightarrow> nat \<Rightarrow> string \<Rightarrow> string list" where
  "setIndex xs i v =
     (if i < length xs then xs[i := v] else xs @ replicate (i - length xs) [] @ [v])"

text \<open>\<^verbatim>\<open>xs.findIndex(P)\<close>: the first index whose element satisfies \<open>P\<close>, or \<open>-1\<close>.\<close>

fun findIndexFrom :: "('a \<Rightarrow> bool) \<Rightarrow> int \<Rightarrow> 'a list \<Rightarrow> int" where
  "findIndexFrom P k [] = - 1"
| "findIndexFrom P k (x # xs) = (if P x then k else findIndexFrom P (k + 1) xs)"

definition findIndex :: "('a \<Rightarrow> bool) \<Rightarrow> 'a list \<Rightarrow> int" where
  "findIndex P xs = findIndexFrom P 0 xs"

text \<open>\<^verbatim>\<open>s.includes(c)\<close> for a one-character needle.\<close>

definition includesChar :: "string \<Rightarrow> char \<Rightarrow> bool" where
  "includesChar s c = (c \<in> set s)"

text \<open>The character classes of the regular expressions \<^verbatim>\<open>/\d/\<close>, \<^verbatim>\<open>/[A-Z]/\<close>, \<^verbatim>\<open>/[a-z]/\<close>.\<close>

definition isDigit :: "char \<Rightarrow> bool" where
  "isDigit c = (48 \<le> (of_char c :: nat) \<and> (of_char c :: nat) \<le> 57)"

definition isUpper :: "char \<Rightarrow> bool" where
  "isUpper c = (65 \<le> (of_char c :: nat) \<and> (of_char c :: nat) \<le> 90)"

definition isLower :: "char \<Rightarrow> bool" where
  "isLower c = (97 \<le> (of_char c :: nat) \<and> (of_char c :: nat) \<le> 122)"

text \<open>\<^verbatim>\<open>parseInt(d, 10)\<close> on a one-digit string.\<close>

definition parseDigit :: "char \<Rightarrow> nat" where
  "parseDigit c = (of_char c :: nat) - 48"

section \<open>Completion\<close>

text \<open>
  \<^verbatim>\<open>if (fen.split(' ').length < 6) fen += ' w - - 0 1';\<close>
  (\<^verbatim>\<open>board-to-fen.js\<close> line 39 and \<^verbatim>\<open>loadPosition\<close> in \<^verbatim>\<open>app.js\<close> line 333).
\<close>

definition completion :: "string \<Rightarrow> string" where
  "completion fen =
     (if length (split CHR '' '' fen) < 6 then fen @ '' w - - 0 1'' else fen)"

section \<open>Castling-rights inference\<close>

text \<open>
  \<^verbatim>\<open>const expand = (s) => s.replace(/\d/g, (d) => '1'.repeat(parseInt(d, 10)));\<close>
\<close>

definition expand :: "string \<Rightarrow> string" where
  "expand s = concat (map (\<lambda>c. if isDigit c then replicate (parseDigit c) CHR ''1'' else [c]) s)"

datatype error = TypeError

text \<open>
  Lines 43 to 59 of \<^verbatim>\<open>board-to-fen.js\<close>.  \<^verbatim>\<open>ranks[0]\<close> always exists (a split is
  never empty); \<^verbatim>\<open>ranks[7]\<close> is \<^verbatim>\<open>undefined\<close> when the placement has fewer than eight
  ranks, and \<^verbatim>\<open>expand(undefined)\<close> throws a TypeError.
\<close>

definition castlingOf :: "string \<Rightarrow> string \<Rightarrow> string" where
  "castlingOf r1 r8 =
     (let castling = [];
          castling = (if charAt r1 4 = Some CHR ''K'' then
                        (let castling = (if charAt r1 7 = Some CHR ''R'' then castling @ ''K'' else castling);
                             castling = (if charAt r1 0 = Some CHR ''R'' then castling @ ''Q'' else castling)
                         in castling)
                      else castling);
          castling = (if charAt r8 4 = Some CHR ''k'' then
                        (let castling = (if charAt r8 7 = Some CHR ''r'' then castling @ ''k'' else castling);
                             castling = (if charAt r8 0 = Some CHR ''r'' then castling @ ''q'' else castling)
                         in castling)
                      else castling)
      in castling)"

definition inferCastling :: "string \<Rightarrow> error + string" where
  "inferCastling fen =
     (let fenParts = split CHR '' '' fen;
          ranks = split CHR ''/'' (hd fenParts);
          r8 = expand (hd ranks)
      in if length ranks \<le> 7 then Inl TypeError
         else
           (let r1 = expand (ranks ! 7);
                castling = castlingOf r1 r8;
                fenParts = setIndex fenParts 2 (if castling = [] then ''-'' else castling)
            in Inr (join CHR '' '' fenParts)))"

section \<open>Rotation transform\<close>

text \<open>
  Modelled from the spec: \<^verbatim>\<open>rotateFen\<close> is imported by \<^verbatim>\<open>app.js\<close> from
  \<^verbatim>\<open>./utils/fen.js\<close>, which is not among the source files.  The specification
  describes it as a pure geometric transform of the placement: the order of the rows is
  reversed and the order of the squares within each row is reversed (a rotation of the
  board by 180 degrees); the other fields of the descriptor are not touched.
\<close>

definition rotatePlacement :: "string \<Rightarrow> string" where
  "rotatePlacement p = join CHR ''/'' (rev (map rev (split CHR ''/'' p)))"

text \<open>
  Modelled from the spec: \<^verbatim>\<open>rotateFen\<close> (of the missing \<^verbatim>\<open>utils/fen.js\<close>) on a whole
  descriptor rotates the placement, its first field, and keeps the remaining fields: the
  specification treats the change of the active colour as a separate toggle that the
  rotation does not imply.
\<close>

definition rotateFen :: "string \<Rightarrow> string" where
  "rotateFen fen =
     (let parts = split CHR '' '' fen
      in join CHR '' '' (rotatePlacement (hd parts) # tl parts))"

section \<open>Orientation heuristic\<close>

text \<open>
  \<^verbatim>\<open>detectOrientation\<close> of \<^verbatim>\<open>app.js\<close>.  The score is a sum of two numbers of the form
  \<open>n + 1/2\<close> with \<open>n\<close> a row index; such numbers are exact in double precision, so
  the score is modelled as a real number.  \<open>orOne n\<close> is \<^verbatim>\<open>n || 1\<close>; \<open>countMatches\<close> is
  the local function \<^verbatim>\<open>count\<close>: the number of characters of \<open>s\<close> that match the class.
  In the fallback the quotient of two piece counts is compared with \<open>0.65\<close>.  The model
  compares the exact fraction with \<open>65/100\<close>: a fraction \<open>a/t\<close> other than \<open>13/20\<close> differs
  from it by at least \<open>1/(20 t)\<close>, far more than the rounding of a double for any string
  that fits in memory, and \<open>13/20\<close> itself rounds to the same double as the literal.
\<close>

definition kingScore :: "int \<Rightarrow> int \<Rightarrow> real" where
  "kingScore whiteKingRow blackKingRow =
     (let score = 0;
          score = (if whiteKingRow \<noteq> - 1 then score + (3.5 - real_of_int whiteKingRow) else score);
          score = (if blackKingRow \<noteq> - 1 then score + (real_of_int blackKingRow - 3.5) else score)
      in score)"

definition countMatches :: "string \<Rightarrow> (char \<Rightarrow> bool) \<Rightarrow> nat" where
  "countMatches s re = length (filter re s)"

definition orOne :: "nat \<Rightarrow> nat" where
  "orOne n = (if n = 0 then 1 else n)"

definition fenRows :: "string \<Rightarrow> string list" where
  "fenRows fen = split CHR ''/'' (hd (split CHR '' '' fen))"

definition whiteKingRow :: "string \<Rightarrow> int" where
  "whiteKingRow fen = findIndex (\<lambda>r. includesChar r CHR ''K'') (fenRows fen)"

definition blackKingRow :: "string \<Rightarrow> int" where
  "blackKingRow fen = findIndex (\<lambda>r. includesChar r CHR ''k'') (fenRows fen)"

definition isFlipped :: "string \<Rightarrow> bool" where
  "isFlipped fen =
     (let rows = fenRows fen
      in if whiteKingRow fen \<noteq> - 1 \<or> blackKingRow fen \<noteq> - 1 then
           kingScore (whiteKingRow fen) (blackKingRow fen) > 1.5
         else
           (let top = concat (take 4 rows);
                bottom = concat (drop 4 rows);
                wTop = countMatches top isUpper; bTop = countMatches top isLower;
                wBot = countMatches bottom isUpper; bBot = countMatches bottom isLower
            in real wTop / real (orOne (wTop + bTop)) > 0.65 \<and>
               real bBot / real (orOne (wBot + bBot)) > 0.65))"

definition detectOrientation :: "string \<Rightarrow> string" where
  "detectOrientation fen = (if isFlipped fen then rotateFen fen else fen)"

section \<open>The post-processing pipeline\<close>

text \<open>
  The server function \<^verbatim>\<open>handler\<close> from the point where the recognizer's answer is read
  (line 32): \<open>None\<close> is \<^verbatim>\<open>null\<close>; \<^verbatim>\<open>!fen\<close> holds for \<^verbatim>\<open>null\<close> and for the empty
  string; an exception inside the \<^verbatim>\<open>try\<close> block becomes the response 500.
\<close>

datatype response = Status200 string | Status422 | Status500

definition handler :: "string option \<Rightarrow> response" where
  "handler ocrFen =
     (case ocrFen of
        None \<Rightarrow> Status422
      | Some fen \<Rightarrow>
          if fen = [] then Status422
          else (case inferCastling (completion fen) of
                  Inl e \<Rightarrow> Status500
                | Inr fen' \<Rightarrow> Status200 fen'))"

text \<open>
  \<^verbatim>\<open>loadPosition\<close> completes the string and hands it to the rules engine
  (\<^verbatim>\<open>this.chess.load(fen)\<close>, an external collaborator); the model returns the string
  that is handed over.
\<close>

definition loadPosition :: "string \<Rightarrow> string" where
  "loadPosition fen = completion fen"

text \<open>
  \<^verbatim>\<open>handleImageUpload\<close> after the image has been sent: a response that is not OK, or
  one without a position string, throws; otherwise the client runs the orientation check
  on the server's string and loads the result.
\<close>

datatype clientError = ServerError | NoFenReturned

definition handleImageUpload :: "string option \<Rightarrow> clientError + string" where
  "handleImageUpload ocrFen =
     (case handler ocrFen of
        Status200 fen \<Rightarrow>
          if fen = [] then Inl NoFenReturned
          else Inr (loadPosition (detectOrientation fen))
      | Status422 \<Rightarrow> Inl ServerError
      | Status500 \<Rightarrow> Inl ServerError)"

section \<open>Bleed-removal filter\<close>

text \<open>
  An \<^verbatim>\<open>ImageData\<close> object: \<open>data\<close> holds four bytes (red, green, blue, alpha) per
  pixel, row by row.
\<close>

record imageData =
  data :: "nat list"
  width :: nat
  height :: nat

definition wfImage :: "imageData \<Rightarrow> bool" where
  "wfImage img =
     (length (data img) = 4 * (width img * height img) \<and> list_all (\<lambda>b. b \<le> 255) (data img))"

text \<open>
  The arithmetic of the filter is floating point.  A JavaScript number is a double: the
  result of \<^verbatim>\<open>+\<close>, \<^verbatim>\<open>*\<close> or \<^verbatim>\<open>/\<close> is the exact result rounded to a double, written
  \<open>f64\<close> here.  The fields \<^verbatim>\<open>gray\<close>, \<^verbatim>\<open>kernel\<close>, \<^verbatim>\<open>tmp\<close>, \<^verbatim>\<open>dst\<close> and \<^verbatim>\<open>norm\<close> are
  \<^verbatim>\<open>Float32Array\<close>s: a store rounds the double to single precision, written \<open>f32\<close>.
  \<^verbatim>\<open>Math.exp\<close> returns an approximation of the exponential, written \<open>mathExp\<close>.  The model
  takes these three functions as a parameter and writes out every rounding of the source,
  in the order in which the source computes; a sum accumulated by a loop is a left fold.
  A number literal stands for the double nearest to it (\<open>f64 0.299\<close>); literals that are
  doubles themselves (\<open>1\<close>, \<open>255\<close>, \<open>0.5\<close>) are written as they are.  \<^verbatim>\<open>Math.min\<close>,
  \<^verbatim>\<open>Math.max\<close> and \<^verbatim>\<open>Math.round\<close> are exact.
\<close>

record floatOps =
  f64 :: "real \<Rightarrow> real"
  f32 :: "real \<Rightarrow> real"
  mathExp :: "real \<Rightarrow> real"

text \<open>
  What the theorems below assume of the rounding, where they assume anything.  Rounding to
  nearest is monotone, and it returns its argument when the argument is representable;
  every \<open>m / 2 ^ k\<close> with \<open>\<bar>m\<bar> \<le> 2 ^ 24\<close> and \<open>k \<le> 64\<close> is a single-precision number and
  therefore a double.  Of \<^verbatim>\<open>Math.exp\<close> only a coarse accuracy is assumed: a relative error
  of at most \<open>2 ^ -20\<close> on the interval from \<open>-100\<close> to \<open>100\<close>.
\<close>

definition roundsToNearest :: "(real \<Rightarrow> real) \<Rightarrow> bool" where
  "roundsToNearest r =
     ((\<forall>x y. x \<le> y \<longrightarrow> r x \<le> r y) \<and>
      (\<forall>(m::int) (k::nat). \<bar>m\<bar> \<le> 2 ^ 24 \<longrightarrow> k \<le> 64 \<longrightarrow>
          r (real_of_int m / 2 ^ k) = real_of_int m / 2 ^ k))"

definition ieee :: "floatOps \<Rightarrow> bool" where
  "ieee fp =
     (roundsToNearest (f64 fp) \<and> roundsToNearest (f32 fp) \<and>
      (\<forall>x. - 100 \<le> x \<longrightarrow> x \<le> 100 \<longrightarrow> \<bar>mathExp fp x - exp x\<bar> \<le> exp x / 2 ^ 20))"

text \<open>Arithmetic without rounding; it satisfies the assumptions.\<close>

definition exactArithmetic :: floatOps where
  "exactArithmetic = \<lparr>f64 = (\<lambda>x. x), f32 = (\<lambda>x. x), mathExp = exp\<rparr>"

text \<open>\<^verbatim>\<open>Math.min(Math.max(i, 0), n - 1)\<close>, used as an index.\<close>

definition clampIndex :: "int \<Rightarrow> nat \<Rightarrow> nat" where
  "clampIndex i n = nat (min (max i 0) (int n - 1))"

text \<open>\<^verbatim>\<open>Math.ceil(3 * sigma)\<close>.\<close>

definition kernelRadius :: "floatOps \<Rightarrow> real \<Rightarrow> nat" where
  "kernelRadius fp sigma = nat \<lceil>f64 fp (3 * sigma)\<rceil>"

text \<open>
  The kernel of \<^verbatim>\<open>_gaussianBlur\<close>: each entry is stored in single precision and then
  added to \<^verbatim>\<open>ksum\<close>; the second loop divides each stored entry by \<^verbatim>\<open>ksum\<close> and stores the
  quotient.
\<close>

definition gaussianKernel :: "floatOps \<Rightarrow> real \<Rightarrow> real list" where
  "gaussianKernel fp sigma =
     (let radius = kernelRadius fp sigma;
          size = 2 * radius + 1;
          kernel = map (\<lambda>i. let x = real_of_int (int i - int radius)
                             in f32 fp (mathExp fp
                                  (f64 fp (- f64 fp (x * x) / f64 fp (f64 fp (2 * sigma) * sigma)))))
                       [0..<size];
          ksum = foldl (\<lambda>ksum v. f64 fp (ksum + v)) 0 kernel
      in map (\<lambda>v. f32 fp (f64 fp (v / ksum))) kernel)"

text \<open>
  \<^verbatim>\<open>_gaussianBlur\<close>: two passes over the pixels, the first along the rows into \<^verbatim>\<open>tmp\<close>,
  the second along the columns into \<^verbatim>\<open>dst\<close>.  The pixel with index \<open>i\<close> is at row
  \<open>y = i div width\<close> and column \<open>x = i mod width\<close>; the kernel index \<open>j\<close> is
  \<^verbatim>\<open>k + radius\<close>, so \<^verbatim>\<open>k\<close> is \<open>int j - int radius\<close>.  The inner loop adds the products to
  \<^verbatim>\<open>acc\<close> one after the other, starting from 0.
\<close>

definition horizontalPass ::
  "floatOps \<Rightarrow> real list \<Rightarrow> nat \<Rightarrow> nat \<Rightarrow> nat \<Rightarrow> real list \<Rightarrow> real list" where
  "horizontalPass fp src w h radius ker =
     map (\<lambda>i. let y = i div w; x = i mod w; row = y * w
               in f32 fp (foldl (\<lambda>acc j. f64 fp (acc + f64 fp
                            (src ! (row + clampIndex (int x + (int j - int radius)) w) * ker ! j)))
                          0 [0..<2 * radius + 1]))
         [0..<w * h]"

definition verticalPass ::
  "floatOps \<Rightarrow> real list \<Rightarrow> nat \<Rightarrow> nat \<Rightarrow> nat \<Rightarrow> real list \<Rightarrow> real list" where
  "verticalPass fp tmp w h radius ker =
     map (\<lambda>i. let y = i div w; x = i mod w
               in f32 fp (foldl (\<lambda>acc j. f64 fp (acc + f64 fp
                            (tmp ! (clampIndex (int y + (int j - int radius)) h * w + x) * ker ! j)))
                          0 [0..<2 * radius + 1]))
         [0..<w * h]"

definition gaussianBlur :: "floatOps \<Rightarrow> real list \<Rightarrow> nat \<Rightarrow> nat \<Rightarrow> real \<Rightarrow> real list" where
  "gaussianBlur fp src w h sigma =
     (let radius = kernelRadius fp sigma;
          kernel = gaussianKernel fp sigma;
          tmp = horizontalPass fp src w h radius kernel;
          dst = verticalPass fp tmp w h radius kernel
      in dst)"

text \<open>
  \<^verbatim>\<open>removeBleeding\<close>.  \<^verbatim>\<open>0.299 * r + 0.587 * g + 0.114 * b\<close> is evaluated from left to
  right and stored into \<^verbatim>\<open>gray\<close>.
\<close>

definition grayField :: "floatOps \<Rightarrow> imageData \<Rightarrow> real list" where
  "grayField fp img =
     map (\<lambda>i. f32 fp (f64 fp (f64 fp (f64 fp (f64 fp 0.299 * real (data img ! (i * 4)))
                                      + f64 fp (f64 fp 0.587 * real (data img ! (i * 4 + 1))))
                             + f64 fp (f64 fp 0.114 * real (data img ! (i * 4 + 2))))))
         [0..<width img * height img]"

definition bgField :: "floatOps \<Rightarrow> imageData \<Rightarrow> real list" where
  "bgField fp img = gaussianBlur fp (grayField fp img) (width img) (height img) 25"

definition blendFactor :: real where
  "blendFactor = 0.5"

text \<open>The body of the normalization loop, with the store into \<^verbatim>\<open>norm\<close>.\<close>

definition normPixel :: "floatOps \<Rightarrow> real \<Rightarrow> real \<Rightarrow> real" where
  "normPixel fp g b =
     (let normalizedValue = f64 fp (f64 fp (f64 fp (g + 1) / f64 fp (b + 1)) * 255)
      in f32 fp (min 255 (max 0 (f64 fp (f64 fp (normalizedValue * blendFactor)
                                        + f64 fp (g * f64 fp (1 - blendFactor)))))))"

definition normField :: "floatOps \<Rightarrow> imageData \<Rightarrow> real list" where
  "normField fp img =
     map (\<lambda>i. normPixel fp (grayField fp img ! i) (bgField fp img ! i))
         [0..<width img * height img]"

text \<open>
  The normalization step as the specification words it, for comparison with \<open>normPixel\<close>:
  the normalized value is clamped to the range from 0 to 255 and then blended with the
  grey value, half and half.  The code does not contain this function.
\<close>

definition clampFirstPixel :: "floatOps \<Rightarrow> real \<Rightarrow> real \<Rightarrow> real" where
  "clampFirstPixel fp g b =
     (let normalized = min 255 (max 0 (f64 fp (f64 fp (f64 fp (g + 1) / f64 fp (b + 1)) * 255)))
      in f32 fp (f64 fp (f64 fp (normalized * blendFactor) + f64 fp (g * f64 fp (1 - blendFactor)))))"

text \<open>\<^verbatim>\<open>Math.round\<close> and the conversion of a number stored into a \<^verbatim>\<open>Uint8ClampedArray\<close>.\<close>

definition mathRound :: "real \<Rightarrow> int" where
  "mathRound x = \<lfloor>x + 1 / 2\<rfloor>"

definition toUint8Clamped :: "int \<Rightarrow> nat" where
  "toUint8Clamped v = nat (min 255 (max 0 v))"

definition removeBleeding :: "floatOps \<Rightarrow> imageData \<Rightarrow> imageData" where
  "removeBleeding fp img =
     (let n = width img * height img;
          denoised = gaussianBlur fp (normField fp img) (width img) (height img) 2;
          out = concat (map (\<lambda>i. let v = mathRound (denoised ! i)
                                    in [toUint8Clamped v, toUint8Clamped v, toUint8Clamped v, 255])
                            [0..<n])
      in \<lparr>data = out, width = width img, height = height img\<rparr>)"

section \<open>The board behind a placement string\<close>

text \<open>
  The position descriptor of the specification: a rank is a row of squares, each empty or
  holding a piece, written with digits for runs of empty squares.  \<open>squares r\<close> decodes a
  rank into its squares (\<open>None\<close> is an empty square, \<open>Some c\<close> the piece with letter
  \<open>c\<close>); files a to h are the indices 0 to 7.  A rank is well formed when it is written
  with piece letters and the digits 1 to 8 and has eight squares; a placement is well
  formed when it has eight well-formed ranks.  These definitions serve to state the
  castling rule; the code does not use them.
\<close>

definition squares :: "string \<Rightarrow> char option list" where
  "squares r = concat (map (\<lambda>c. if isDigit c then replicate (parseDigit c) None else [Some c]) r)"

definition wellFormedRank :: "string \<Rightarrow> bool" where
  "wellFormedRank r =
     (list_all (\<lambda>c. c \<in> set ''pnbrqkPNBRQK12345678'') r \<and> length (squares r) = 8)"

definition wellFormedPlacement :: "string \<Rightarrow> bool" where
  "wellFormedPlacement p =
     (length (split CHR ''/'' p) = 8 \<and> list_all wellFormedRank (split CHR ''/'' p))"

section \<open>Properties of the string primitives\<close>

lemma split_not_Nil [simp]: "split c s \<noteq> []"
  by (induction s) (auto split: list.splits)

lemma split_no_sep: "c \<notin> set s \<Longrightarrow> split c s = [s]"
  by (induction s) auto

lemma split_append_sep: "split c (a @ c # b) = split c a @ split c b"
proof (induction a)
  case Nil
  show ?case by simp
next
  case (Cons x a)
  show ?case
  proof (cases "x = c")
    case True
    with Cons show ?thesis by simp
  next
    case False
    obtain y ys where s: "split c a = y # ys"
      by (cases "split c a") (use split_not_Nil in auto)
    with False Cons show ?thesis by simp
  qed
qed

lemma join_Cons: "xs \<noteq> [] \<Longrightarrow> join c (x # xs) = x @ c # join c xs"
  by (cases xs) auto

lemma join_split [simp]: "join c (split c s) = s"
proof (induction s)
  case Nil
  show ?case by simp
next
  case (Cons x s)
  show ?case
  proof (cases "x = c")
    case True
    with Cons show ?thesis by (simp add: join_Cons)
  next
    case False
    obtain y ys where s: "split c s = y # ys"
      by (cases "split c s") (use split_not_Nil in auto)
    with False Cons show ?thesis by (cases ys) auto
  qed
qed

lemma split_join: "xs \<noteq> [] \<Longrightarrow> \<forall>x \<in> set xs. c \<notin> set x \<Longrightarrow> split c (join c xs) = xs"
proof (induction xs rule: join.induct[of _ c])
  case (1 c)
  then show ?case by simp
next
  case (2 c x)
  then show ?case by (simp add: split_no_sep)
next
  case (3 c x y ys)
  then show ?case by (simp add: split_append_sep split_no_sep)
qed

lemma fields_in_split: "x \<in> set (split c s) \<Longrightarrow> c \<notin> set x"
proof (induction s arbitrary: x)
  case Nil
  then show ?case by simp
next
  case (Cons a s)
  obtain y ys where s: "split c s = y # ys"
    by (cases "split c s") (use split_not_Nil in auto)
  show ?case
  proof (cases "a = c")
    case True
    with Cons show ?thesis by auto
  next
    case False
    with Cons s show ?thesis by auto
  qed
qed

lemma split_suffix: "split CHR '' '' '' w - - 0 1'' = [[], ''w'', ''-'', ''-'', ''0'', ''1'']"
  by simp

lemma split_completion:
  "split CHR '' '' (completion fen) =
     (if length (split CHR '' '' fen) < 6
      then split CHR '' '' fen @ [''w'', ''-'', ''-'', ''0'', ''1'']
      else split CHR '' '' fen)"
proof -
  have "split CHR '' '' (fen @ CHR '' '' # ''w - - 0 1'') =
        split CHR '' '' fen @ split CHR '' '' ''w - - 0 1''"
    by (rule split_append_sep)
  then show ?thesis by (simp add: completion_def)
qed

section \<open>Completion\<close>

lemma completion_one_field:
  "length (split CHR '' '' raw) = 1 \<Longrightarrow>
     completion raw = raw @ '' w - - 0 1'' \<and>
     split CHR '' '' (completion raw) = [raw, ''w'', ''-'', ''-'', ''0'', ''1'']"
proof -
  assume l: "length (split CHR '' '' raw) = 1"
  then obtain x where x: "split CHR '' '' raw = [x]"
    by (cases "split CHR '' '' raw") auto
  have "join CHR '' '' (split CHR '' '' raw) = raw" by (rule join_split)
  with x have "x = raw" by simp
  with x l show ?thesis by (simp add: split_completion) (simp add: completion_def)
qed

lemma completion_six_fields:
  "6 \<le> length (split CHR '' '' raw) \<Longrightarrow> completion raw = raw"
  by (simp add: completion_def)

lemma completion_field_count:
  "length (split CHR '' '' (completion raw)) =
     (if length (split CHR '' '' raw) < 6 then length (split CHR '' '' raw) + 5
      else length (split CHR '' '' raw))"
  by (simp add: split_completion)

text \<open>
  C3.  Completion is meant to turn a string with fewer than six fields into a six-field
  descriptor.  On the four-field string \<open>8/8/8/8/8/8/8/8 w - -\<close> the code appends all five
  default fields, so the result has nine fields: the tail it adds is not the missing
  suffix.
\<close>

theorem completion_four_fields_gives_nine:
  "length (split CHR '' '' ''8/8/8/8/8/8/8/8 w - -'') = 4 \<and>
   completion ''8/8/8/8/8/8/8/8 w - -'' = ''8/8/8/8/8/8/8/8 w - - w - - 0 1'' \<and>
   split CHR '' '' (completion ''8/8/8/8/8/8/8/8 w - -'') =
     [''8/8/8/8/8/8/8/8'', ''w'', ''-'', ''-'', ''w'', ''-'', ''-'', ''0'', ''1''] \<and>
   length (split CHR '' '' (completion ''8/8/8/8/8/8/8/8 w - -'')) \<noteq> 6"
  by code_simp

section \<open>Orientation heuristic\<close>

lemma findIndexFrom_none:
  "findIndexFrom P k xs = - 1 \<Longrightarrow> 0 \<le> k \<Longrightarrow> \<forall>x \<in> set xs. \<not> P x"
  by (induction xs arbitrary: k) (auto split: if_splits)

lemma findIndexFrom_all_false:
  "\<forall>x \<in> set xs. \<not> P x \<Longrightarrow> findIndexFrom P k xs = - 1"
  by (induction xs arbitrary: k) auto

lemma findIndexFrom_found:
  "\<exists>x \<in> set xs. P x \<Longrightarrow> 0 \<le> k \<Longrightarrow>
     (\<exists>i < length xs. findIndexFrom P k xs = k + int i \<and> P (xs ! i) \<and> (\<forall>j < i. \<not> P (xs ! j)))"
proof (induction xs arbitrary: k)
  case Nil
  then show ?case by simp
next
  case (Cons x xs)
  show ?case
  proof (cases "P x")
    case True
    then show ?thesis by (intro exI[of _ 0]) simp
  next
    case False
    with Cons.prems have "\<exists>x \<in> set xs. P x" by auto
    from Cons.IH[OF this, of "k + 1"] Cons.prems(2)
    obtain i where i: "i < length xs" "findIndexFrom P (k + 1) xs = k + 1 + int i"
      "P (xs ! i)" "\<forall>j < i. \<not> P (xs ! j)" by auto
    show ?thesis
    proof (intro exI[of _ "Suc i"] conjI allI impI)
      show "Suc i < length (x # xs)" using i by simp
      show "findIndexFrom P k (x # xs) = k + int (Suc i)" using i False by simp
      show "P ((x # xs) ! Suc i)" using i by simp
      fix j assume "j < Suc i"
      then show "\<not> P ((x # xs) ! j)" using i(4) False by (cases j) auto
    qed
  qed
qed

lemma findIndex_none_iff: "findIndex P xs = - 1 \<longleftrightarrow> (\<forall>x \<in> set xs. \<not> P x)"
proof
  assume "findIndex P xs = - 1"
  then show "\<forall>x \<in> set xs. \<not> P x"
    using findIndexFrom_none[of P 0 xs] by (simp add: findIndex_def)
next
  assume "\<forall>x \<in> set xs. \<not> P x"
  then show "findIndex P xs = - 1"
    by (simp add: findIndex_def findIndexFrom_all_false)
qed

lemma findIndex_first:
  "findIndex P xs \<noteq> - 1 \<Longrightarrow>
     \<exists>i < length xs. findIndex P xs = int i \<and> P (xs ! i) \<and> (\<forall>j < i. \<not> P (xs ! j))"
proof -
  assume "findIndex P xs \<noteq> - 1"
  then have "\<exists>x \<in> set xs. P x" by (simp add: findIndex_none_iff)
  from findIndexFrom_found[OF this, of 0] show ?thesis by (simp add: findIndex_def)
qed

lemma kingScore_terms:
  "kingScore w b =
     (if w = - 1 then 0 else 3.5 - real_of_int w) + (if b = - 1 then 0 else real_of_int b - 3.5)"
  by (simp add: kingScore_def Let_def)


lemma fraction_gt_iff:
  "0 < t \<Longrightarrow> (real a / real t > 0.65) = (13 * t < 20 * a)"
proof -
  assume t: "0 < t"
  then have "(real a / real t > 65 / 100) = (65 / 100 * real t < real a)"
    by (simp add: pos_less_divide_eq)
  also have "\<dots> = (real (13 * t) < real (20 * a))"
    by (simp add: field_simps)
  also have "\<dots> = (13 * t < 20 * a)"
    by (simp only: of_nat_less_iff)
  finally show ?thesis by simp
qed

lemma join_butlast:
  "rows \<noteq> [] \<Longrightarrow> join c rows = concat (map (\<lambda>r. r @ [c]) (butlast rows)) @ last rows"
  by (induction rows rule: join.induct[of _ c]) simp_all

lemma set_join: "set (join c rows) \<subseteq> insert c (\<Union> (set ` set rows))"
  by (induction rows rule: join.induct[of _ c]) auto

lemma hd_split_append:
  assumes "c \<notin> set p" and "rest = [] \<or> hd rest = c"
  shows "hd (split c (p @ rest)) = p"
proof (cases rest)
  case Nil
  with assms(1) show ?thesis by (simp add: split_no_sep)
next
  case (Cons a rs)
  with assms(2) have "rest = c # rs" by simp
  then show ?thesis using assms(1) by (simp add: split_append_sep split_no_sep)
qed

text \<open>
  A descriptor whose placement consists of the rows \<open>rows\<close>, written one after the other
  with a slash between them, and whose remaining text \<open>rest\<close> is empty or starts with the
  space that ends the placement: \<^verbatim>\<open>fen.split(' ')[0].split('/')\<close> gives back the rows.
\<close>

lemma fenRows_of_rows:
  assumes fen: "fen = concat (map (\<lambda>r. r @ ''/'') (butlast rows)) @ last rows @ rest"
    and ne: "rows \<noteq> []"
    and rows: "\<forall>r \<in> set rows. CHR ''/'' \<notin> set r \<and> CHR '' '' \<notin> set r"
    and rest: "rest = [] \<or> hd rest = CHR '' ''"
  shows "fenRows fen = rows"
proof -
  have f: "fen = join CHR ''/'' rows @ rest"
    using fen ne by (simp add: join_butlast)
  have "CHR '' '' \<notin> set (join CHR ''/'' rows)"
    using set_join[of "CHR ''/''" rows] rows by auto
  then have "hd (split CHR '' '' fen) = join CHR ''/'' rows"
    unfolding f using rest by (rule hd_split_append)
  then show ?thesis
    using ne rows by (simp add: fenRows_def split_join)
qed

lemma findIndex_eq_first:
  assumes "i < length xs" and "P (xs ! i)" and "\<forall>j < i. \<not> P (xs ! j)"
  shows "findIndex P xs = int i"
proof -
  have "findIndex P xs \<noteq> - 1"
    using assms(1,2) by (auto simp: findIndex_none_iff)
  from findIndex_first[OF this] obtain i' where i': "i' < length xs" "findIndex P xs = int i'"
    "P (xs ! i')" "\<forall>j < i'. \<not> P (xs ! j)" by blast
  have "i' = i"
  proof (rule ccontr)
    assume "i' \<noteq> i"
    then consider "i' < i" | "i < i'" by linarith
    then show False
    proof cases
      case 1 with assms(3) i'(3) show False by blast
    next
      case 2 with i'(4) assms(2) show False by blast
    qed
  qed
  with i'(2) show ?thesis by simp
qed

lemma kingRow_of_first:
  assumes "case w of None \<Rightarrow> (\<forall>r \<in> set rows. c \<notin> set r)
           | Some i \<Rightarrow> i < length rows \<and> c \<in> set (rows ! i) \<and> (\<forall>j < i. c \<notin> set (rows ! j))"
  shows "findIndex (\<lambda>r. includesChar r c) rows = (case w of None \<Rightarrow> - 1 | Some i \<Rightarrow> int i)"
proof (cases w)
  case None
  with assms show ?thesis by (simp add: findIndex_none_iff includesChar_def)
next
  case (Some i)
  with assms have "findIndex (\<lambda>r. includesChar r c) rows = int i"
    by (intro findIndex_eq_first) (simp_all add: includesChar_def)
  with Some show ?thesis by simp
qed

text \<open>
  C1.  Let the placement consist of the rows \<open>rows\<close>, numbered from 0.  Let \<open>w\<close> be the
  number of the first row that contains the letter \<open>K\<close> (\<open>None\<close> when no row does) and \<open>b\<close>
  the number of the first row that contains \<open>k\<close>.  When at least one of the two kings is
  found, the board counts as flipped exactly when
  \<open>(3.5 - w) + (b - 3.5) > 1.5\<close>, where a king that was not found contributes nothing,
  and the descriptor is rotated exactly in that case.  With the White king in row 6 and the
  Black king in row 1 the descriptor is left as it is; with the White king in row 1 and the
  Black king in row 6 it is rotated.
\<close>

theorem detectOrientation_king_score:
  fixes rows :: "string list" and rest :: string and w b :: "nat option"
  assumes fen: "fen = concat (map (\<lambda>r. r @ ''/'') (butlast rows)) @ last rows @ rest"
    and ne: "rows \<noteq> []"
    and rows: "\<forall>r \<in> set rows. CHR ''/'' \<notin> set r \<and> CHR '' '' \<notin> set r"
    and rest: "rest = [] \<or> hd rest = CHR '' ''"
    and w: "case w of None \<Rightarrow> (\<forall>r \<in> set rows. CHR ''K'' \<notin> set r)
            | Some i \<Rightarrow> i < length rows \<and> CHR ''K'' \<in> set (rows ! i)
                        \<and> (\<forall>j < i. CHR ''K'' \<notin> set (rows ! j))"
    and b: "case b of None \<Rightarrow> (\<forall>r \<in> set rows. CHR ''k'' \<notin> set r)
            | Some i \<Rightarrow> i < length rows \<and> CHR ''k'' \<in> set (rows ! i)
                        \<and> (\<forall>j < i. CHR ''k'' \<notin> set (rows ! j))"
    and found: "w \<noteq> None \<or> b \<noteq> None"
  shows "(isFlipped fen \<longleftrightarrow>
            (case w of None \<Rightarrow> 0 | Some i \<Rightarrow> 3.5 - real i)
          + (case b of None \<Rightarrow> 0 | Some i \<Rightarrow> real i - 3.5) > 1.5)
       \<and> detectOrientation fen =
           (if (case w of None \<Rightarrow> 0 | Some i \<Rightarrow> 3.5 - real i)
             + (case b of None \<Rightarrow> 0 | Some i \<Rightarrow> real i - 3.5) > 1.5
            then rotateFen fen else fen)
       \<and> (w = Some 6 \<and> b = Some 1 \<longrightarrow> \<not> isFlipped fen \<and> detectOrientation fen = fen)
       \<and> (w = Some 1 \<and> b = Some 6 \<longrightarrow> isFlipped fen \<and> detectOrientation fen = rotateFen fen)"
proof -
  have r: "fenRows fen = rows" by (rule fenRows_of_rows[OF fen ne rows rest])
  have wk: "whiteKingRow fen = (case w of None \<Rightarrow> - 1 | Some i \<Rightarrow> int i)"
    unfolding whiteKingRow_def r by (rule kingRow_of_first[OF w])
  have bk: "blackKingRow fen = (case b of None \<Rightarrow> - 1 | Some i \<Rightarrow> int i)"
    unfolding blackKingRow_def r by (rule kingRow_of_first[OF b])
  have located: "whiteKingRow fen \<noteq> - 1 \<or> blackKingRow fen \<noteq> - 1"
    using found by (auto simp: wk bk split: option.splits)
  have score: "kingScore (whiteKingRow fen) (blackKingRow fen) =
      (case w of None \<Rightarrow> 0 | Some i \<Rightarrow> 3.5 - real i) + (case b of None \<Rightarrow> 0 | Some i \<Rightarrow> real i - 3.5)"
    by (simp add: kingScore_terms wk bk split: option.splits)
  have flipped: "isFlipped fen \<longleftrightarrow>
      (case w of None \<Rightarrow> 0 | Some i \<Rightarrow> 3.5 - real i) + (case b of None \<Rightarrow> 0 | Some i \<Rightarrow> real i - 3.5) > 1.5"
    using located by (simp add: isFlipped_def Let_def score)
  have normal: "w = Some 6 \<and> b = Some 1 \<longrightarrow> \<not> isFlipped fen \<and> detectOrientation fen = fen"
    by (simp add: flipped detectOrientation_def)
  have rotated: "w = Some 1 \<and> b = Some 6 \<longrightarrow> isFlipped fen \<and> detectOrientation fen = rotateFen fen"
    by (simp add: flipped detectOrientation_def)
  have det: "detectOrientation fen =
           (if (case w of None \<Rightarrow> 0 | Some i \<Rightarrow> 3.5 - real i)
             + (case b of None \<Rightarrow> 0 | Some i \<Rightarrow> real i - 3.5) > 1.5
            then rotateFen fen else fen)"
    by (simp only: detectOrientation_def flipped)
  from flipped det normal rotated show ?thesis by blast
qed

theorem detectOrientation_king_score_witness:
  "isFlipped ''8/K7/8/8/8/8/k7/8 w - - 0 1''
   \<and> detectOrientation ''8/K7/8/8/8/8/k7/8 w - - 0 1'' = ''8/7k/8/8/8/8/7K/8 w - - 0 1''
   \<and> \<not> isFlipped ''8/8/8/8/8/2k5/2P5/2K5 w - - 0 1''
   \<and> detectOrientation ''8/8/8/8/8/2k5/2P5/2K5 w - - 0 1'' = ''8/8/8/8/8/2k5/2P5/2K5 w - - 0 1''"
proof -
  let ?rows1 = "[''8'', ''K7'', ''8'', ''8'', ''8'', ''8'', ''k7'', ''8'']"
  let ?rows2 = "[''8'', ''8'', ''8'', ''8'', ''8'', ''2k5'', ''2P5'', ''2K5'']"
  have all7: "(\<forall>j < 7. P j) \<longleftrightarrow> P 0 \<and> P 1 \<and> P 2 \<and> P 3 \<and> P 4 \<and> P 5 \<and> P (6::nat)" for P
    by (simp add: numeral_eq_Suc less_Suc_eq) blast
  have all6: "(\<forall>j < 6. P j) \<longleftrightarrow> P 0 \<and> P 1 \<and> P 2 \<and> P 3 \<and> P 4 \<and> P (5::nat)" for P
    by (simp add: numeral_eq_Suc less_Suc_eq) blast
  have all5: "(\<forall>j < 5. P j) \<longleftrightarrow> P 0 \<and> P 1 \<and> P 2 \<and> P 3 \<and> P (4::nat)" for P
    by (simp add: numeral_eq_Suc less_Suc_eq) blast
  have r: "rotateFen ''8/K7/8/8/8/8/k7/8 w - - 0 1'' = ''8/7k/8/8/8/8/7K/8 w - - 0 1''"
    by code_simp
  have 1: "isFlipped ''8/K7/8/8/8/8/k7/8 w - - 0 1''
      \<and> detectOrientation ''8/K7/8/8/8/8/k7/8 w - - 0 1'' = rotateFen ''8/K7/8/8/8/8/k7/8 w - - 0 1''"
    using detectOrientation_king_score[of "''8/K7/8/8/8/8/k7/8 w - - 0 1''" ?rows1 "'' w - - 0 1''"
        "Some 1" "Some 6"]
    by (simp add: all6)
  have 2: "\<not> isFlipped ''8/8/8/8/8/2k5/2P5/2K5 w - - 0 1''
      \<and> detectOrientation ''8/8/8/8/8/2k5/2P5/2K5 w - - 0 1'' = ''8/8/8/8/8/2k5/2P5/2K5 w - - 0 1''"
    using detectOrientation_king_score[of "''8/8/8/8/8/2k5/2P5/2K5 w - - 0 1''" ?rows2 "'' w - - 0 1''"
        "Some 7" "Some 5"]
    by (simp add: all7 all5)
  from 1 2 r show ?thesis by simp
qed

lemma isUpper_range: "isUpper c \<longleftrightarrow> CHR ''A'' \<le> c \<and> c \<le> CHR ''Z''"
  by (simp add: isUpper_def less_eq_char_def)

lemma isLower_range: "isLower c \<longleftrightarrow> CHR ''a'' \<le> c \<and> c \<le> CHR ''z''"
  by (simp add: isLower_def less_eq_char_def)

lemma countMatches_upper:
  "countMatches s isUpper = length (filter (\<lambda>c. CHR ''A'' \<le> c \<and> c \<le> CHR ''Z'') s)"
proof -
  have "isUpper = (\<lambda>c. CHR ''A'' \<le> c \<and> c \<le> CHR ''Z'')"
    by (rule ext) (rule isUpper_range)
  then show ?thesis by (simp add: countMatches_def)
qed

lemma countMatches_lower:
  "countMatches s isLower = length (filter (\<lambda>c. CHR ''a'' \<le> c \<and> c \<le> CHR ''z'') s)"
proof -
  have "isLower = (\<lambda>c. CHR ''a'' \<le> c \<and> c \<le> CHR ''z'')"
    by (rule ext) (rule isLower_range)
  then show ?thesis by (simp add: countMatches_def)
qed

text \<open>
  C6.  Let the placement consist of the rows \<open>rows\<close>, none of which contains \<open>K\<close> or \<open>k\<close>.
  The far half is the text of the first four rows and the near half the text of the
  remaining rows (the last four of eight).  The White pieces of a half are its letters
  from \<open>A\<close> to \<open>Z\<close>, the Black pieces its letters from \<open>a\<close> to \<open>z\<close>, each occurrence
  counted.  The board counts as flipped exactly when the White pieces are strictly more
  than 65 percent of the pieces of the far half and the Black pieces strictly more than
  65 percent of the pieces of the near half; a half without pieces fails the test.  The
  descriptor is rotated exactly in that case and is otherwise left as it is.
\<close>

theorem detectOrientation_fallback:
  fixes rows :: "string list" and rest :: string
  assumes fen: "fen = concat (map (\<lambda>r. r @ ''/'') (butlast rows)) @ last rows @ rest"
    and ne: "rows \<noteq> []"
    and rows: "\<forall>r \<in> set rows. CHR ''/'' \<notin> set r \<and> CHR '' '' \<notin> set r"
    and rest: "rest = [] \<or> hd rest = CHR '' ''"
    and noKing: "\<forall>r \<in> set rows. CHR ''K'' \<notin> set r \<and> CHR ''k'' \<notin> set r"
  shows "(let far = concat (take 4 rows); near = concat (drop 4 rows);
              wFar = length (filter (\<lambda>c. CHR ''A'' \<le> c \<and> c \<le> CHR ''Z'') far);
              bFar = length (filter (\<lambda>c. CHR ''a'' \<le> c \<and> c \<le> CHR ''z'') far);
              wNear = length (filter (\<lambda>c. CHR ''A'' \<le> c \<and> c \<le> CHR ''Z'') near);
              bNear = length (filter (\<lambda>c. CHR ''a'' \<le> c \<and> c \<le> CHR ''z'') near);
              flipped = (0 < wFar + bFar \<and> real wFar / real (wFar + bFar) > 65 / 100 \<and>
                         0 < wNear + bNear \<and> real bNear / real (wNear + bNear) > 65 / 100)
          in (isFlipped fen \<longleftrightarrow> flipped)
           \<and> (flipped \<longleftrightarrow> 13 * (wFar + bFar) < 20 * wFar \<and> 13 * (wNear + bNear) < 20 * bNear)
           \<and> detectOrientation fen = (if flipped then rotateFen fen else fen)
           \<and> (length rows = 8 \<longrightarrow>
                 far = rows ! 0 @ rows ! 1 @ rows ! 2 @ rows ! 3 \<and>
                 near = rows ! 4 @ rows ! 5 @ rows ! 6 @ rows ! 7))"
proof -
  have r: "fenRows fen = rows" by (rule fenRows_of_rows[OF fen ne rows rest])
  have wk: "whiteKingRow fen = - 1"
    using noKing by (simp add: whiteKingRow_def r findIndex_none_iff includesChar_def)
  have bk: "blackKingRow fen = - 1"
    using noKing by (simp add: blackKingRow_def r findIndex_none_iff includesChar_def)
  define wFar where "wFar = length (filter (\<lambda>c. CHR ''A'' \<le> c \<and> c \<le> CHR ''Z'') (concat (take 4 rows)))"
  define bFar where "bFar = length (filter (\<lambda>c. CHR ''a'' \<le> c \<and> c \<le> CHR ''z'') (concat (take 4 rows)))"
  define wNear where "wNear = length (filter (\<lambda>c. CHR ''A'' \<le> c \<and> c \<le> CHR ''Z'') (concat (drop 4 rows)))"
  define bNear where "bNear = length (filter (\<lambda>c. CHR ''a'' \<le> c \<and> c \<le> CHR ''z'') (concat (drop 4 rows)))"
  define flipped where "flipped \<longleftrightarrow>
     0 < wFar + bFar \<and> real wFar / real (wFar + bFar) > 65 / 100 \<and>
     0 < wNear + bNear \<and> real bNear / real (wNear + bNear) > 65 / 100"
  have code: "isFlipped fen \<longleftrightarrow>
      real wFar / real (orOne (wFar + bFar)) > 0.65 \<and>
      real bNear / real (orOne (wNear + bNear)) > 0.65"
    by (simp add: isFlipped_def Let_def wk bk r countMatches_upper countMatches_lower
          wFar_def bFar_def wNear_def bNear_def)
  have far: "real wFar / real (orOne (wFar + bFar)) > 0.65 \<longleftrightarrow>
      0 < wFar + bFar \<and> real wFar / real (wFar + bFar) > 65 / 100"
    by (cases "wFar + bFar = 0") (simp_all add: orOne_def)
  have near: "real bNear / real (orOne (wNear + bNear)) > 0.65 \<longleftrightarrow>
      0 < wNear + bNear \<and> real bNear / real (wNear + bNear) > 65 / 100"
    by (cases "wNear + bNear = 0") (simp_all add: orOne_def)
  have 1: "isFlipped fen \<longleftrightarrow> flipped"
    unfolding code far near flipped_def by blast
  have farI: "0 < wFar + bFar \<and> real wFar / real (wFar + bFar) > 65 / 100 \<longleftrightarrow>
      13 * (wFar + bFar) < 20 * wFar"
    using fraction_gt_iff[of "wFar + bFar" wFar] by (cases "wFar + bFar = 0") auto
  have nearI: "0 < wNear + bNear \<and> real bNear / real (wNear + bNear) > 65 / 100 \<longleftrightarrow>
      13 * (wNear + bNear) < 20 * bNear"
    using fraction_gt_iff[of "wNear + bNear" bNear] by (cases "wNear + bNear = 0") auto
  have 2: "flipped \<longleftrightarrow> 13 * (wFar + bFar) < 20 * wFar \<and> 13 * (wNear + bNear) < 20 * bNear"
    unfolding flipped_def using farI nearI by blast
  have 3: "detectOrientation fen = (if flipped then rotateFen fen else fen)"
    by (simp add: detectOrientation_def 1)
  have 4: "length rows = 8 \<longrightarrow>
      concat (take 4 rows) = rows ! 0 @ rows ! 1 @ rows ! 2 @ rows ! 3 \<and>
      concat (drop 4 rows) = rows ! 4 @ rows ! 5 @ rows ! 6 @ rows ! 7"
  proof
    assume l: "length rows = 8"
    have t: "take 4 rows = [rows ! 0, rows ! 1, rows ! 2, rows ! 3]"
      by (rule nth_equalityI) (use l in \<open>auto simp: nth_Cons' numeral_eq_Suc less_Suc_eq\<close>)
    have d: "drop 4 rows = [rows ! 4, rows ! 5, rows ! 6, rows ! 7]"
      by (rule nth_equalityI) (use l in \<open>auto simp: nth_Cons' numeral_eq_Suc less_Suc_eq\<close>)
    show "concat (take 4 rows) = rows ! 0 @ rows ! 1 @ rows ! 2 @ rows ! 3 \<and>
      concat (drop 4 rows) = rows ! 4 @ rows ! 5 @ rows ! 6 @ rows ! 7"
      unfolding t d by simp
  qed
  from 1 2 3 4 show ?thesis
    unfolding Let_def wFar_def[symmetric] bFar_def[symmetric]
      wNear_def[symmetric] bNear_def[symmetric] flipped_def[symmetric]
    by blast
qed

theorem detectOrientation_fallback_witness:
  "isFlipped ''PPPp/8/8/8/8/8/8/pppp w - - 0 1''
   \<and> detectOrientation ''PPPp/8/8/8/8/8/8/pppp w - - 0 1'' = ''pppp/8/8/8/8/8/8/pPPP w - - 0 1''
   \<and> \<not> isFlipped ''PPPPPPPP/PPPPPppp/pppp/8/8/8/8/pppp w - - 0 1''
   \<and> detectOrientation ''PPPPPPPP/PPPPPppp/pppp/8/8/8/8/pppp w - - 0 1''
       = ''PPPPPPPP/PPPPPppp/pppp/8/8/8/8/pppp w - - 0 1''"
proof -
  let ?rows1 = "[''PPPp'', ''8'', ''8'', ''8'', ''8'', ''8'', ''8'', ''pppp'']"
  let ?rows2 = "[''PPPPPPPP'', ''PPPPPppp'', ''pppp'', ''8'', ''8'', ''8'', ''8'', ''pppp'']"
  have r: "rotateFen ''PPPp/8/8/8/8/8/8/pppp w - - 0 1'' = ''pppp/8/8/8/8/8/8/pPPP w - - 0 1''"
    by code_simp
  have 1: "isFlipped ''PPPp/8/8/8/8/8/8/pppp w - - 0 1''
      \<and> detectOrientation ''PPPp/8/8/8/8/8/8/pppp w - - 0 1'' = rotateFen ''PPPp/8/8/8/8/8/8/pppp w - - 0 1''"
    using detectOrientation_fallback[of "''PPPp/8/8/8/8/8/8/pppp w - - 0 1''" ?rows1 "'' w - - 0 1''"]
    by (simp add: Let_def less_eq_char_def)
  have 2: "\<not> isFlipped ''PPPPPPPP/PPPPPppp/pppp/8/8/8/8/pppp w - - 0 1''
      \<and> detectOrientation ''PPPPPPPP/PPPPPppp/pppp/8/8/8/8/pppp w - - 0 1''
          = ''PPPPPPPP/PPPPPppp/pppp/8/8/8/8/pppp w - - 0 1''"
    using detectOrientation_fallback[of "''PPPPPPPP/PPPPPppp/pppp/8/8/8/8/pppp w - - 0 1''" ?rows2 "'' w - - 0 1''"]
    by (simp add: Let_def less_eq_char_def)
  from 1 2 r show ?thesis by simp
qed

text \<open>
  C9 (as the specification states it).  On \<open>8/8/8/8/8/2k5/2P5/2K5\<close> the White king is not in
  row 6 and the score is not 0: the rows are counted from 0, the White king stands in the
  last row, row 7, and the score is \<open>(3.5 - 7) + (5 - 3.5) = - 2\<close>.
\<close>

theorem scenario_white_king_row_counterexample:
  "\<not> (whiteKingRow (completion ''8/8/8/8/8/2k5/2P5/2K5'') = 6 \<and>
      kingScore (whiteKingRow (completion ''8/8/8/8/8/2k5/2P5/2K5''))
                (blackKingRow (completion ''8/8/8/8/8/2k5/2P5/2K5'')) = 0)"
proof -
  have "whiteKingRow (completion ''8/8/8/8/8/2k5/2P5/2K5'') = 7" by code_simp
  then show ?thesis by simp
qed

text \<open>
  C9 (amended).  For the raw string \<open>8/8/8/8/8/2k5/2P5/2K5\<close>: completion appends
  \<open> w - - 0 1\<close>; the White king is found in row 7 and the Black king in row 5, the score is
  \<open>- 2\<close>, so the board is not flipped and the string is not rotated; castling inference
  writes \<open>-\<close>; the position string that is finally loaded is
  \<open>8/8/8/8/8/2k5/2P5/2K5 w - - 0 1\<close>.
\<close>

theorem scenario_placement_only:
  "completion ''8/8/8/8/8/2k5/2P5/2K5'' = ''8/8/8/8/8/2k5/2P5/2K5'' @ '' w - - 0 1'' \<and>
   whiteKingRow ''8/8/8/8/8/2k5/2P5/2K5 w - - 0 1'' = 7 \<and>
   blackKingRow ''8/8/8/8/8/2k5/2P5/2K5 w - - 0 1'' = 5 \<and>
   kingScore 7 5 = - 2 \<and>
   \<not> isFlipped ''8/8/8/8/8/2k5/2P5/2K5 w - - 0 1'' \<and>
   detectOrientation ''8/8/8/8/8/2k5/2P5/2K5 w - - 0 1'' = ''8/8/8/8/8/2k5/2P5/2K5 w - - 0 1'' \<and>
   inferCastling ''8/8/8/8/8/2k5/2P5/2K5 w - - 0 1'' = Inr ''8/8/8/8/8/2k5/2P5/2K5 w - - 0 1'' \<and>
   split CHR '' '' ''8/8/8/8/8/2k5/2P5/2K5 w - - 0 1'' ! 2 = ''-'' \<and>
   handler (Some ''8/8/8/8/8/2k5/2P5/2K5'') = Status200 ''8/8/8/8/8/2k5/2P5/2K5 w - - 0 1'' \<and>
   handleImageUpload (Some ''8/8/8/8/8/2k5/2P5/2K5'') = Inr ''8/8/8/8/8/2k5/2P5/2K5 w - - 0 1''"
  by code_simp

theorem scenario_placement_only_witness:
  "handleImageUpload (Some ''8/8/8/8/8/2k5/2P5/2K5'') = Inr ''8/8/8/8/8/2k5/2P5/2K5 w - - 0 1'' \<and>
   \<not> isFlipped ''8/8/8/8/8/2k5/2P5/2K5 w - - 0 1''"
  using scenario_placement_only by simp

section \<open>Castling-rights inference\<close>

lemma isDigit_one: "isDigit CHR ''1''"
  by (simp add: isDigit_def)

lemma squares_expand:
  "squares r = map (\<lambda>c. if c = CHR ''1'' then None else Some c) (expand r)"
proof (induction r)
  case Nil
  show ?case by (simp add: squares_def expand_def)
next
  case (Cons a r)
  have tl: "squares (a # r) =
      (if isDigit a then replicate (parseDigit a) None else [Some a]) @ squares r"
    by (simp add: squares_def)
  have ex: "expand (a # r) =
      (if isDigit a then replicate (parseDigit a) CHR ''1'' else [a]) @ expand r"
    by (simp add: expand_def)
  show ?case
  proof (cases "isDigit a")
    case True
    then show ?thesis by (simp add: tl ex Cons.IH)
  next
    case False
    with isDigit_one have "a \<noteq> CHR ''1''" by auto
    with False show ?thesis by (simp add: tl ex Cons.IH)
  qed
qed

lemma length_expand: "length (expand r) = length (squares r)"
  by (simp add: squares_expand)

lemma charAt_expand:
  "c \<noteq> CHR ''1'' \<Longrightarrow> i < length (squares r) \<Longrightarrow>
     charAt (expand r) i = Some c \<longleftrightarrow> squares r ! i = Some c"
  by (simp add: charAt_def length_expand) (simp add: squares_expand)

lemma castlingOf_cases:
  "castlingOf r1 r8 =
     (if charAt r1 4 = Some CHR ''K'' \<and> charAt r1 7 = Some CHR ''R'' then ''K'' else [])
   @ (if charAt r1 4 = Some CHR ''K'' \<and> charAt r1 0 = Some CHR ''R'' then ''Q'' else [])
   @ (if charAt r8 4 = Some CHR ''k'' \<and> charAt r8 7 = Some CHR ''r'' then ''k'' else [])
   @ (if charAt r8 4 = Some CHR ''k'' \<and> charAt r8 0 = Some CHR ''r'' then ''q'' else [])"
  by (simp add: castlingOf_def Let_def)

lemma castlingOf_no_space: "CHR '' '' \<notin> set (castlingOf r1 r8)"
  by (simp add: castlingOf_cases)

lemma castlingField_no_space:
  "CHR '' '' \<notin> set (if castlingOf r1 r8 = [] then ''-'' else castlingOf r1 r8)"
  using castlingOf_no_space by simp

lemma inferCastling_Inr:
  "8 \<le> length (fenRows fen) \<Longrightarrow>
     inferCastling fen =
       Inr (join CHR '' '' (setIndex (split CHR '' '' fen) 2
              (let castling = castlingOf (expand (fenRows fen ! 7)) (expand (hd (fenRows fen)))
               in if castling = [] then ''-'' else castling)))"
  by (simp add: inferCastling_def fenRows_def Let_def)

lemma inferCastling_Inl:
  "length (fenRows fen) < 8 \<Longrightarrow> inferCastling fen = Inl TypeError"
  by (simp add: inferCastling_def fenRows_def Let_def)

lemma split_join_setIndex:
  assumes "2 < length (split CHR '' '' fen)" and "CHR '' '' \<notin> set c"
  shows "split CHR '' '' (join CHR '' '' (setIndex (split CHR '' '' fen) 2 c)) =
         (split CHR '' '' fen)[2 := c]"
proof -
  let ?parts = "split CHR '' '' fen"
  have s: "setIndex ?parts 2 c = ?parts[2 := c]"
    using assms(1) by (simp add: setIndex_def)
  have ne: "?parts[2 := c] \<noteq> []" by simp
  have "\<forall>x \<in> set (?parts[2 := c]). CHR '' '' \<notin> set x"
  proof
    fix x assume "x \<in> set (?parts[2 := c])"
    then have "x = c \<or> x \<in> set ?parts"
      using set_update_subset_insert[of ?parts 2 c] by auto
    then show "CHR '' '' \<notin> set x"
      using assms(2) fields_in_split by auto
  qed
  from split_join[OF ne this] s show ?thesis by simp
qed

lemma wellFormedPlacement_ranks:
  assumes "wellFormedPlacement (hd (split CHR '' '' fen))"
  shows "length (fenRows fen) = 8"
    and "i < 8 \<Longrightarrow> length (squares (fenRows fen ! i)) = 8"
proof -
  from assms show l: "length (fenRows fen) = 8"
    by (simp add: wellFormedPlacement_def fenRows_def)
  assume "i < 8"
  with l assms show "length (squares (fenRows fen ! i)) = 8"
    by (simp add: wellFormedPlacement_def fenRows_def list_all_length wellFormedRank_def)
qed

text \<open>
  C2.  On a six-field descriptor whose placement has eight well-formed ranks, castling
  inference returns a string (it does not throw), and the castling field of that string
  holds \<open>K\<close> exactly when the White king is on e1 and a White rook on h1, \<open>Q\<close> exactly when
  the White king is on e1 and a White rook on a1, \<open>k\<close> and \<open>q\<close> likewise for Black on
  rank 8; the White letters depend on rank 1 only and the Black letters on rank 8 only.  The
  letters appear in the order \<open>KQkq\<close>, and when no right qualifies the field is \<open>-\<close>; it is
  never empty.
\<close>

theorem inferCastling_rights:
  assumes six: "length (split CHR '' '' fen) = 6"
    and wf: "wellFormedPlacement (hd (split CHR '' '' fen))"
  shows "\<exists>out. inferCastling fen = Inr out \<and>
     (let rank1 = squares (fenRows fen ! 7);
          rank8 = squares (fenRows fen ! 0);
          whiteKingside = (rank1 ! 4 = Some CHR ''K'' \<and> rank1 ! 7 = Some CHR ''R'');
          whiteQueenside = (rank1 ! 4 = Some CHR ''K'' \<and> rank1 ! 0 = Some CHR ''R'');
          blackKingside = (rank8 ! 4 = Some CHR ''k'' \<and> rank8 ! 7 = Some CHR ''r'');
          blackQueenside = (rank8 ! 4 = Some CHR ''k'' \<and> rank8 ! 0 = Some CHR ''r'');
          field = split CHR '' '' out ! 2
      in (CHR ''K'' \<in> set field \<longleftrightarrow> whiteKingside)
       \<and> (CHR ''Q'' \<in> set field \<longleftrightarrow> whiteQueenside)
       \<and> (CHR ''k'' \<in> set field \<longleftrightarrow> blackKingside)
       \<and> (CHR ''q'' \<in> set field \<longleftrightarrow> blackQueenside)
       \<and> (field = ''-'' \<longleftrightarrow>
             \<not> whiteKingside \<and> \<not> whiteQueenside \<and> \<not> blackKingside \<and> \<not> blackQueenside)
       \<and> field \<noteq> []
       \<and> (if whiteKingside \<or> whiteQueenside \<or> blackKingside \<or> blackQueenside
           then field = (if whiteKingside then ''K'' else []) @ (if whiteQueenside then ''Q'' else [])
                      @ (if blackKingside then ''k'' else []) @ (if blackQueenside then ''q'' else [])
           else field = ''-''))"
proof -
  define r1 where "r1 = fenRows fen ! 7"
  define r8 where "r8 = fenRows fen ! 0"
  define c where "c = castlingOf (expand r1) (expand r8)"
  define field where "field = (if c = [] then ''-'' else c)"
  define out where "out = join CHR '' '' (setIndex (split CHR '' '' fen) 2 field)"
  have len: "length (fenRows fen) = 8"
    and l1: "length (squares r1) = 8" and l8: "length (squares r8) = 8"
    using wellFormedPlacement_ranks[OF wf] by (simp_all add: r1_def r8_def)
  have hd8: "hd (fenRows fen) = r8"
    using len by (cases "fenRows fen") (simp_all add: r8_def)
  have res: "inferCastling fen = Inr out"
    using len by (simp add: inferCastling_Inr out_def field_def c_def r1_def hd8 Let_def)
  have nosp: "CHR '' '' \<notin> set field"
    unfolding field_def c_def by (rule castlingField_no_space)
  have fld: "split CHR '' '' out ! 2 = field"
    unfolding out_def using six by (simp add: split_join_setIndex[OF _ nosp])
  have e: "charAt (expand r1) 4 = Some CHR ''K'' \<longleftrightarrow> squares r1 ! 4 = Some CHR ''K''"
       "charAt (expand r1) 7 = Some CHR ''R'' \<longleftrightarrow> squares r1 ! 7 = Some CHR ''R''"
       "charAt (expand r1) 0 = Some CHR ''R'' \<longleftrightarrow> squares r1 ! 0 = Some CHR ''R''"
       "charAt (expand r8) 4 = Some CHR ''k'' \<longleftrightarrow> squares r8 ! 4 = Some CHR ''k''"
       "charAt (expand r8) 7 = Some CHR ''r'' \<longleftrightarrow> squares r8 ! 7 = Some CHR ''r''"
       "charAt (expand r8) 0 = Some CHR ''r'' \<longleftrightarrow> squares r8 ! 0 = Some CHR ''r''"
    using l1 l8 by (simp_all add: charAt_expand)
  have cval: "c =
       (if squares r1 ! 4 = Some CHR ''K'' \<and> squares r1 ! 7 = Some CHR ''R'' then ''K'' else [])
     @ (if squares r1 ! 4 = Some CHR ''K'' \<and> squares r1 ! 0 = Some CHR ''R'' then ''Q'' else [])
     @ (if squares r8 ! 4 = Some CHR ''k'' \<and> squares r8 ! 7 = Some CHR ''r'' then ''k'' else [])
     @ (if squares r8 ! 4 = Some CHR ''k'' \<and> squares r8 ! 0 = Some CHR ''r'' then ''q'' else [])"
    unfolding c_def castlingOf_cases e by (rule refl)
  show ?thesis
  proof (intro exI[of _ out] conjI)
    show "inferCastling fen = Inr out" by (rule res)
    show "let rank1 = squares (fenRows fen ! 7);
          rank8 = squares (fenRows fen ! 0);
          whiteKingside = (rank1 ! 4 = Some CHR ''K'' \<and> rank1 ! 7 = Some CHR ''R'');
          whiteQueenside = (rank1 ! 4 = Some CHR ''K'' \<and> rank1 ! 0 = Some CHR ''R'');
          blackKingside = (rank8 ! 4 = Some CHR ''k'' \<and> rank8 ! 7 = Some CHR ''r'');
          blackQueenside = (rank8 ! 4 = Some CHR ''k'' \<and> rank8 ! 0 = Some CHR ''r'');
          field = split CHR '' '' out ! 2
      in (CHR ''K'' \<in> set field \<longleftrightarrow> whiteKingside)
       \<and> (CHR ''Q'' \<in> set field \<longleftrightarrow> whiteQueenside)
       \<and> (CHR ''k'' \<in> set field \<longleftrightarrow> blackKingside)
       \<and> (CHR ''q'' \<in> set field \<longleftrightarrow> blackQueenside)
       \<and> (field = ''-'' \<longleftrightarrow>
             \<not> whiteKingside \<and> \<not> whiteQueenside \<and> \<not> blackKingside \<and> \<not> blackQueenside)
       \<and> field \<noteq> []
       \<and> (if whiteKingside \<or> whiteQueenside \<or> blackKingside \<or> blackQueenside
           then field = (if whiteKingside then ''K'' else []) @ (if whiteQueenside then ''Q'' else [])
                      @ (if blackKingside then ''k'' else []) @ (if blackQueenside then ''q'' else [])
           else field = ''-'')"
      unfolding Let_def fld r1_def[symmetric] r8_def[symmetric]
      unfolding field_def cval
      by (cases "squares r1 ! 4 = Some CHR ''K''"; cases "squares r1 ! 7 = Some CHR ''R''";
          cases "squares r1 ! 0 = Some CHR ''R''"; cases "squares r8 ! 4 = Some CHR ''k''";
          cases "squares r8 ! 7 = Some CHR ''r''"; cases "squares r8 ! 0 = Some CHR ''r''")
         simp_all
  qed
qed

theorem inferCastling_rights_witness:
  "length (split CHR '' '' ''r3k2r/8/8/8/8/8/8/R3K2R w - - 0 1'') = 6 \<and>
   wellFormedPlacement (hd (split CHR '' '' ''r3k2r/8/8/8/8/8/8/R3K2R w - - 0 1'')) \<and>
   (\<exists>out. inferCastling ''r3k2r/8/8/8/8/8/8/R3K2R w - - 0 1'' = Inr out \<and>
          split CHR '' '' out ! 2 = ''KQkq'') \<and>
   inferCastling ''r3k2r/8/8/8/8/8/8/R3K2R w - - 0 1'' = Inr ''r3k2r/8/8/8/8/8/8/R3K2R w KQkq - 0 1''"
proof -
  have six: "length (split CHR '' '' ''r3k2r/8/8/8/8/8/8/R3K2R w - - 0 1'') = 6"
    by code_simp
  have wf: "wellFormedPlacement (hd (split CHR '' '' ''r3k2r/8/8/8/8/8/8/R3K2R w - - 0 1''))"
    by code_simp
  have s1: "squares (fenRows ''r3k2r/8/8/8/8/8/8/R3K2R w - - 0 1'' ! 7) =
      [Some CHR ''R'', None, None, None, Some CHR ''K'', None, None, Some CHR ''R'']"
    by code_simp
  have s8: "squares (fenRows ''r3k2r/8/8/8/8/8/8/R3K2R w - - 0 1'' ! 0) =
      [Some CHR ''r'', None, None, None, Some CHR ''k'', None, None, Some CHR ''r'']"
    by code_simp
  have v: "inferCastling ''r3k2r/8/8/8/8/8/8/R3K2R w - - 0 1'' =
      Inr ''r3k2r/8/8/8/8/8/8/R3K2R w KQkq - 0 1''"
    by code_simp
  have "\<exists>out. inferCastling ''r3k2r/8/8/8/8/8/8/R3K2R w - - 0 1'' = Inr out \<and>
          split CHR '' '' out ! 2 = ''KQkq''"
    using inferCastling_rights[OF six wf] unfolding Let_def s1 s8 by simp blast
  with six wf v show ?thesis by blast
qed

text \<open>
  C10.  On a six-field descriptor castling inference either throws (exactly when the
  placement has fewer than eight ranks) or returns a six-field string whose placement,
  active colour, en-passant target, halfmove clock and fullmove number are those of the
  input: only the third field is rewritten.
\<close>

theorem inferCastling_frame:
  assumes six: "length (split CHR '' '' fen) = 6"
  shows "case inferCastling fen of
           Inl e \<Rightarrow> length (fenRows fen) < 8
         | Inr out \<Rightarrow>
             8 \<le> length (fenRows fen)
           \<and> length (split CHR '' '' out) = 6
           \<and> split CHR '' '' out ! 0 = split CHR '' '' fen ! 0
           \<and> split CHR '' '' out ! 1 = split CHR '' '' fen ! 1
           \<and> split CHR '' '' out ! 3 = split CHR '' '' fen ! 3
           \<and> split CHR '' '' out ! 4 = split CHR '' '' fen ! 4
           \<and> split CHR '' '' out ! 5 = split CHR '' '' fen ! 5
           \<and> split CHR '' '' out = (split CHR '' '' fen)[2 := split CHR '' '' out ! 2]"
proof (cases "length (fenRows fen) < 8")
  case True
  then show ?thesis by (simp add: inferCastling_Inl)
next
  case False
  define field where "field =
    (let castling = castlingOf (expand (fenRows fen ! 7)) (expand (hd (fenRows fen)))
     in if castling = [] then ''-'' else castling)"
  define out where "out = join CHR '' '' (setIndex (split CHR '' '' fen) 2 field)"
  have res: "inferCastling fen = Inr out"
    using False by (simp add: inferCastling_Inr out_def field_def)
  have nosp: "CHR '' '' \<notin> set field"
    unfolding field_def Let_def by (rule castlingField_no_space)
  have sp: "split CHR '' '' out = (split CHR '' '' fen)[2 := field]"
    unfolding out_def using six by (simp add: split_join_setIndex[OF _ nosp])
  have "split CHR '' '' out ! 2 = field"
    using six by (simp add: sp)
  with sp six False show ?thesis by (simp add: res)
qed

theorem inferCastling_frame_witness:
  "length (split CHR '' '' ''r3k2r/8/8/8/8/8/8/R3K2R b - e3 4 17'') = 6 \<and>
   inferCastling ''r3k2r/8/8/8/8/8/8/R3K2R b - e3 4 17'' =
     Inr ''r3k2r/8/8/8/8/8/8/R3K2R b KQkq e3 4 17'' \<and>
   split CHR '' '' ''r3k2r/8/8/8/8/8/8/R3K2R b KQkq e3 4 17'' =
     (split CHR '' '' ''r3k2r/8/8/8/8/8/8/R3K2R b - e3 4 17'')[2 := ''KQkq'']"
proof -
  have six: "length (split CHR '' '' ''r3k2r/8/8/8/8/8/8/R3K2R b - e3 4 17'') = 6"
    by code_simp
  have v: "inferCastling ''r3k2r/8/8/8/8/8/8/R3K2R b - e3 4 17'' =
      Inr ''r3k2r/8/8/8/8/8/8/R3K2R b KQkq e3 4 17''"
    by code_simp
  have f: "split CHR '' '' ''r3k2r/8/8/8/8/8/8/R3K2R b KQkq e3 4 17'' ! 2 = ''KQkq''"
    by code_simp
  from inferCastling_frame[OF six] six v f show ?thesis by simp
qed

section \<open>Rotation transform\<close>

lemma join_snoc: "xs \<noteq> [] \<Longrightarrow> join c (xs @ [x]) = join c xs @ c # x"
proof (induction xs rule: join.induct[of _ c])
  case (1 c)
  then show ?case by simp
next
  case (2 c y)
  show ?case by simp
next
  case (3 c y z zs)
  then show ?case by simp
qed

lemma rev_join: "rev (join c xs) = join c (rev (map rev xs))"
proof (induction xs rule: join.induct[of _ c])
  case (1 c)
  show ?case by simp
next
  case (2 c x)
  show ?case by simp
next
  case (3 c x y ys)
  have "rev (join c (x # y # ys)) = rev (join c (y # ys)) @ c # rev x" by simp
  also have "\<dots> = join c (rev (map rev (y # ys))) @ c # rev x" by (simp only: 3)
  also have "\<dots> = join c (rev (map rev (y # ys)) @ [rev x])"
    by (rule join_snoc[symmetric]) simp
  finally show ?case by simp
qed

lemma rotatePlacement_rev: "rotatePlacement p = rev p"
proof -
  have "rev p = rev (join CHR ''/'' (split CHR ''/'' p))" by simp
  then show ?thesis by (simp only: rev_join rotatePlacement_def)
qed

lemma split_rev: "split c (rev s) = rev (map rev (split c s))"
proof -
  have "rev s = join c (rev (map rev (split c s)))"
    using rev_join[of c "split c s"] by simp
  moreover have "split c (join c (rev (map rev (split c s)))) = rev (map rev (split c s))"
  proof (rule split_join)
    show "rev (map rev (split c s)) \<noteq> []" by simp
    show "\<forall>x \<in> set (rev (map rev (split c s))). c \<notin> set x"
      using fields_in_split[of _ c s] by auto
  qed
  ultimately show ?thesis by simp
qed

lemma squares_rev: "squares (rev r) = rev (squares r)"
proof -
  have "rev (squares r) =
      concat (map rev (rev (map (\<lambda>c. if isDigit c then replicate (parseDigit c) None else [Some c]) r)))"
    unfolding squares_def by (rule rev_concat)
  also have "\<dots> = concat (map (\<lambda>c. rev (if isDigit c then replicate (parseDigit c) None else [Some c])) (rev r))"
    by (simp add: rev_map comp_def)
  also have "\<dots> = squares (rev r)"
    unfolding squares_def by (rule arg_cong[where f = concat]) simp
  finally show ?thesis by simp
qed

lemma mset_concat_rev: "mset (concat (rev xs)) = mset (concat xs)"
  by (induction xs) simp_all

lemma mset_concat_map_rev: "mset (concat (map (\<lambda>r. rev (f r)) xs)) = mset (concat (map f xs))"
  by (induction xs) simp_all

text \<open>
  C8.  The rotation transform is an involution on placements (and on whole descriptors,
  whose other fields it leaves alone).  One application reverses the order of the rows and
  the order of the squares within each row, and it keeps the pieces: the characters of the
  placement, and the contents of the squares, are the same multiset before and after.
\<close>

theorem rotatePlacement_involution:
  "rotatePlacement (rotatePlacement p) = p
   \<and> split CHR ''/'' (rotatePlacement p) = rev (map rev (split CHR ''/'' p))
   \<and> map squares (split CHR ''/'' (rotatePlacement p)) = rev (map (\<lambda>r. rev (squares r)) (split CHR ''/'' p))
   \<and> mset (rotatePlacement p) = mset p
   \<and> mset (concat (map squares (split CHR ''/'' (rotatePlacement p))))
       = mset (concat (map squares (split CHR ''/'' p)))
   \<and> rotateFen (rotateFen fen) = fen
   \<and> tl (split CHR '' '' (rotateFen fen)) = tl (split CHR '' '' fen)"
proof -
  have inv: "rotatePlacement (rotatePlacement p) = p" for p
    by (simp add: rotatePlacement_rev)
  have rows: "split CHR ''/'' (rotatePlacement p) = rev (map rev (split CHR ''/'' p))"
    by (simp add: rotatePlacement_rev split_rev)
  have sq: "map squares (split CHR ''/'' (rotatePlacement p))
      = rev (map (\<lambda>r. rev (squares r)) (split CHR ''/'' p))"
    by (simp add: rows rev_map squares_rev)
  have ms: "mset (rotatePlacement p) = mset p"
    by (simp add: rotatePlacement_rev)
  have "mset (concat (rev (map (\<lambda>r. rev (squares r)) (split CHR ''/'' p))))
      = mset (concat (map squares (split CHR ''/'' p)))"
    by (simp only: mset_concat_rev mset_concat_map_rev)
  with sq have msq: "mset (concat (map squares (split CHR ''/'' (rotatePlacement p))))
       = mset (concat (map squares (split CHR ''/'' p)))"
    by simp
  have fields: "split CHR '' '' (rotateFen fen) =
      rotatePlacement (hd (split CHR '' '' fen)) # tl (split CHR '' '' fen)" for fen
  proof -
    let ?parts = "split CHR '' '' fen"
    have "\<forall>x \<in> set (rotatePlacement (hd ?parts) # tl ?parts). CHR '' '' \<notin> set x"
    proof
      fix x assume "x \<in> set (rotatePlacement (hd ?parts) # tl ?parts)"
      then consider "x = rev (hd ?parts)" | "x \<in> set (tl ?parts)"
        by (auto simp: rotatePlacement_rev)
      then show "CHR '' '' \<notin> set x"
      proof cases
        case 1
        have "hd ?parts \<in> set ?parts" by simp
        with 1 show ?thesis using fields_in_split[of "hd ?parts" "CHR '' ''" fen] by simp
      next
        case 2
        then have "x \<in> set ?parts" by (rule list.set_sel(2)[rotated]) simp
        then show ?thesis by (rule fields_in_split)
      qed
    qed
    then show ?thesis
      unfolding rotateFen_def Let_def by (intro split_join) simp_all
  qed
  have finv: "rotateFen (rotateFen fen) = fen"
  proof -
    have "rotateFen (rotateFen fen) =
        join CHR '' '' (rotatePlacement (rotatePlacement (hd (split CHR '' '' fen))) # tl (split CHR '' '' fen))"
      by (simp add: rotateFen_def[of "rotateFen fen"] fields)
    also have "\<dots> = join CHR '' '' (split CHR '' '' fen)"
      by (simp add: inv)
    finally show ?thesis by simp
  qed
  from inv rows sq ms msq finv fields show ?thesis by simp
qed

section \<open>The order of the pipeline stages\<close>

lemma join_two_not_Nil: "2 \<le> length xs \<Longrightarrow> join c xs \<noteq> []"
  by (cases "(c, xs)" rule: join.cases) auto

lemma length_setIndex: "length (setIndex xs i v) = max (length xs) (Suc i)"
  by (auto simp: setIndex_def)

lemma inferCastling_not_empty: "inferCastling fen = Inr out \<Longrightarrow> out \<noteq> []"
proof -
  assume r: "inferCastling fen = Inr out"
  have "8 \<le> length (fenRows fen)"
  proof (rule ccontr)
    assume "\<not> 8 \<le> length (fenRows fen)"
    then have "inferCastling fen = Inl TypeError" by (simp add: inferCastling_Inl)
    with r show False by simp
  qed
  from inferCastling_Inr[OF this] r show ?thesis
    by (auto simp: join_two_not_Nil length_setIndex)
qed

text \<open>
  The stages as the code runs them: the server completes the string and infers the castling
  rights; the client then checks the orientation, rotates if needed, and completes again
  when loading.
\<close>

lemma handleImageUpload_stages:
  "handleImageUpload (Some raw) =
     (if raw = [] then Inl ServerError
      else case inferCastling (completion raw) of
             Inl e \<Rightarrow> Inl ServerError
           | Inr fen \<Rightarrow> Inr (completion (detectOrientation fen)))"
proof (cases "inferCastling (completion raw)")
  case (Inl e)
  then show ?thesis by (simp add: handleImageUpload_def handler_def)
next
  case (Inr fen)
  then have "fen \<noteq> []" by (rule inferCastling_not_empty)
  with Inr show ?thesis by (simp add: handleImageUpload_def handler_def loadPosition_def)
qed

text \<open>
  C4.  The start position photographed from Black's side is recognised as
  \<open>RNBKQBNR/PPPPPPPP/8/8/8/8/pppppppp/rnbkqbnr\<close>.  The code infers the castling rights on
  the server, before the client has checked the orientation: on the unrotated board no king
  is on its e-file square, the field becomes \<open>-\<close>, and the rotation that follows does not
  touch it.  Castling inference applied after the orientation correction of the completed
  string, the order the claim states, gives \<open>KQkq\<close>.
\<close>

theorem pipeline_castling_before_orientation:
  "handleImageUpload (Some ''RNBKQBNR/PPPPPPPP/8/8/8/8/pppppppp/rnbkqbnr'')
     = Inr ''rnbqkbnr/pppppppp/8/8/8/8/PPPPPPPP/RNBQKBNR w - - 0 1''
   \<and> handler (Some ''RNBKQBNR/PPPPPPPP/8/8/8/8/pppppppp/rnbkqbnr'')
     = Status200 ''RNBKQBNR/PPPPPPPP/8/8/8/8/pppppppp/rnbkqbnr w - - 0 1''
   \<and> detectOrientation (completion ''RNBKQBNR/PPPPPPPP/8/8/8/8/pppppppp/rnbkqbnr'')
     = ''rnbqkbnr/pppppppp/8/8/8/8/PPPPPPPP/RNBQKBNR w - - 0 1''
   \<and> inferCastling (detectOrientation (completion ''RNBKQBNR/PPPPPPPP/8/8/8/8/pppppppp/rnbkqbnr''))
     = Inr ''rnbqkbnr/pppppppp/8/8/8/8/PPPPPPPP/RNBQKBNR w KQkq - 0 1''"
  by code_simp

theorem pipeline_castling_before_orientation_witness:
  "handleImageUpload (Some ''RNBKQBNR/PPPPPPPP/8/8/8/8/pppppppp/rnbkqbnr'')
     \<noteq> Inr ''rnbqkbnr/pppppppp/8/8/8/8/PPPPPPPP/RNBQKBNR w KQkq - 0 1''"
  using pipeline_castling_before_orientation by simp

section \<open>Bleed-removal filter\<close>

subsection \<open>Rounding\<close>

lemma round_mono: "roundsToNearest r \<Longrightarrow> x \<le> y \<Longrightarrow> r x \<le> r y"
  by (simp add: roundsToNearest_def)

lemma round_exact:
  "roundsToNearest r \<Longrightarrow> x = real_of_int m / 2 ^ k \<Longrightarrow> \<bar>m\<bar> \<le> 2 ^ 24 \<Longrightarrow> k \<le> 64 \<Longrightarrow> r x = x"
  by (simp add: roundsToNearest_def)

lemma round_zero: "roundsToNearest r \<Longrightarrow> r 0 = 0"
  by (rule round_exact[where m = 0 and k = 0]) simp_all

lemma round_nonneg: "roundsToNearest r \<Longrightarrow> 0 \<le> x \<Longrightarrow> 0 \<le> r x"
  using round_mono[of r 0 x] by (simp add: round_zero)

lemma round_multiple:
  assumes r: "roundsToNearest r" and m: "0 \<le> m" "int n * m \<le> 2 ^ 24" and k: "k \<le> 64"
  shows "r (real n * (real_of_int m / 2 ^ k)) = real n * (real_of_int m / 2 ^ k)"
proof (rule round_exact[OF r, where m = "int n * m" and k = k])
  show "real n * (real_of_int m / 2 ^ k) = real_of_int (int n * m) / 2 ^ k" by simp
  show "\<bar>int n * m\<bar> \<le> 2 ^ 24" using m by simp
  show "k \<le> 64" by (rule k)
qed

lemma ieee_f64: "ieee fp \<Longrightarrow> roundsToNearest (f64 fp)"
  and ieee_f32: "ieee fp \<Longrightarrow> roundsToNearest (f32 fp)"
  by (simp_all add: ieee_def)

lemma ieee_exactArithmetic: "ieee exactArithmetic"
  by (simp add: ieee_def exactArithmetic_def roundsToNearest_def)

subsection \<open>Sums accumulated in a loop\<close>

lemma sum_loop_nonneg:
  assumes r: "roundsToNearest r"
  shows "0 \<le> a \<Longrightarrow> \<forall>t \<in> set ts. 0 \<le> t \<Longrightarrow> 0 \<le> foldl (\<lambda>acc t. r (acc + t)) a ts"
proof (induction ts arbitrary: a)
  case Nil
  then show ?case by simp
next
  case (Cons t ts)
  have "0 \<le> r (a + t)" using Cons.prems by (intro round_nonneg[OF r]) simp
  then show ?case using Cons by simp
qed

text \<open>
  An upper bound: when every term is at most \<open>c\<close> and the multiples of \<open>c\<close> are
  representable, the accumulated sum is at most \<open>c\<close> times the number of terms that are
  not zero.
\<close>

lemma sum_loop_upper:
  assumes r: "roundsToNearest r"
    and c: "\<And>n. n \<le> N \<Longrightarrow> r (real n * c) = real n * c"
  shows "a \<le> real n0 * c \<Longrightarrow> \<forall>t \<in> set ts. t \<le> c \<Longrightarrow>
         n0 + length (filter (\<lambda>t. t \<noteq> 0) ts) \<le> N \<Longrightarrow>
         foldl (\<lambda>acc t. r (acc + t)) a ts \<le> real (n0 + length (filter (\<lambda>t. t \<noteq> 0) ts)) * c"
proof (induction ts arbitrary: a n0)
  case Nil
  then show ?case by simp
next
  case (Cons t ts)
  show ?case
  proof (cases "t = 0")
    case True
    have "r (a + t) \<le> r (real n0 * c)"
      using Cons.prems(1) True by (intro round_mono[OF r]) simp
    also have "\<dots> = real n0 * c" using Cons.prems(3) by (intro c) simp
    finally have "r (a + t) \<le> real n0 * c" .
    from Cons.IH[OF this] Cons.prems True show ?thesis by simp
  next
    case False
    have "t \<le> c" using Cons.prems(2) by simp
    then have "a + t \<le> real (Suc n0) * c"
      using Cons.prems(1) by (simp add: algebra_simps)
    then have "r (a + t) \<le> r (real (Suc n0) * c)" by (rule round_mono[OF r])
    also have "\<dots> = real (Suc n0) * c" using Cons.prems(3) False by (intro c) simp
    finally have "r (a + t) \<le> real (Suc n0) * c" .
    from Cons.IH[OF this] Cons.prems False show ?thesis by simp
  qed
qed

text \<open>
  A lower bound: when no term is negative, the accumulated sum is at least \<open>c\<close> times the
  number of terms that are at least \<open>c\<close>.
\<close>

lemma sum_loop_lower:
  assumes r: "roundsToNearest r"
    and c: "\<And>n. n \<le> N \<Longrightarrow> r (real n * c) = real n * c"
    and c0: "0 \<le> c"
  shows "real n0 * c \<le> a \<Longrightarrow> \<forall>t \<in> set ts. 0 \<le> t \<Longrightarrow>
         n0 + length (filter (\<lambda>t. c \<le> t) ts) \<le> N \<Longrightarrow>
         real (n0 + length (filter (\<lambda>t. c \<le> t) ts)) * c \<le> foldl (\<lambda>acc t. r (acc + t)) a ts"
proof (induction ts arbitrary: a n0)
  case Nil
  then show ?case by simp
next
  case (Cons t ts)
  show ?case
  proof (cases "c \<le> t")
    case True
    then have "real (Suc n0) * c \<le> a + t"
      using Cons.prems(1) by (simp add: algebra_simps)
    then have "r (real (Suc n0) * c) \<le> r (a + t)" by (rule round_mono[OF r])
    moreover have "r (real (Suc n0) * c) = real (Suc n0) * c"
      using Cons.prems(3) True by (intro c) simp
    ultimately have "real (Suc n0) * c \<le> r (a + t)" by simp
    from Cons.IH[OF this] Cons.prems True show ?thesis by simp
  next
    case False
    have "0 \<le> t" using Cons.prems(2) by simp
    then have "real n0 * c \<le> a + t" using Cons.prems(1) by simp
    then have "r (real n0 * c) \<le> r (a + t)" by (rule round_mono[OF r])
    moreover have "r (real n0 * c) = real n0 * c"
      using Cons.prems(3) by (intro c) simp
    ultimately have "real n0 * c \<le> r (a + t)" by simp
    from Cons.IH[OF this] Cons.prems False show ?thesis by simp
  qed
qed

lemma count_range:
  assumes "a \<le> b" and "b \<le> n" and "\<And>i. a \<le> i \<Longrightarrow> i < b \<Longrightarrow> P (f i)"
  shows "b - a \<le> length (filter P (map f [0..<n]))"
proof -
  have "[0..<n] = [0..<b] @ [b..<n]"
    using upt_add_eq_append[of 0 b "n - b"] assms(2) by simp
  moreover have "[0..<b] = [0..<a] @ [a..<b]"
    using upt_add_eq_append[of 0 a "b - a"] assms(1) by simp
  ultimately have sp: "[0..<n] = [0..<a] @ [a..<b] @ [b..<n]" by simp
  have "P t" if "t \<in> set (map f [a..<b])" for t
    using that assms(3) by auto
  then have "filter P (map f [a..<b]) = map f [a..<b]"
    by (intro filter_True ballI)
  then have "length (filter P (map f [a..<b])) = b - a" by simp
  then show ?thesis unfolding sp by simp
qed

subsection \<open>The kernel of the background blur\<close>

lemma kernelRadius_25: "ieee fp \<Longrightarrow> kernelRadius fp 25 = 75"
proof -
  assume i: "ieee fp"
  have "f64 fp (real_of_int 75 / 2 ^ 0) = real_of_int 75 / 2 ^ 0"
    by (rule round_exact[OF ieee_f64[OF i], where m = 75 and k = 0]) simp_all
  then show ?thesis by (simp add: kernelRadius_def)
qed

lemma mathExp_bounds:
  assumes i: "ieee fp" and y: "- 100 \<le> y" "y \<le> 0"
  shows "0 \<le> mathExp fp y" and "mathExp fp y \<le> 1 + 1 / 2 ^ 20"
    and "- 3 / 8 \<le> y \<Longrightarrow> 1 / 2 \<le> mathExp fp y"
proof -
  have acc: "\<bar>mathExp fp y - exp y\<bar> \<le> exp y / 2 ^ 20"
    using i y by (simp add: ieee_def)
  have e1: "exp y \<le> 1" using y by simp
  have e0: "0 < exp y" by simp
  have small: "exp y / 2 ^ 20 \<le> exp y" by (simp add: field_simps)
  from acc small show "0 \<le> mathExp fp y" by linarith
  have "exp y / 2 ^ 20 \<le> 1 / 2 ^ 20" using e1 by (simp add: divide_right_mono)
  with acc e1 show "mathExp fp y \<le> 1 + 1 / 2 ^ 20" by linarith
  assume "- 3 / 8 \<le> y"
  then have "5 / 8 \<le> exp y" using exp_ge_add_one_self[of y] by linarith
  moreover have "exp y / 2 ^ 20 \<le> exp y / 8" using e0 by (simp add: field_simps)
  ultimately show "1 / 2 \<le> mathExp fp y" using acc by linarith
qed

text \<open>
  Under the rounding assumptions every entry of the kernel for \<open>sigma = 25\<close> lies between
  0 and \<open>1/16\<close>: the 41 entries nearest to the centre are at least \<open>1/2\<close> before the division,
  so \<^verbatim>\<open>ksum\<close> is at least \<open>41/2\<close>, and no entry exceeds \<open>1 + 2 ^ -20\<close>.
\<close>

lemma gaussianKernel_25:
  assumes i: "ieee fp"
  shows "length (gaussianKernel fp 25) = 151"
    and "j < 151 \<Longrightarrow> 0 \<le> gaussianKernel fp 25 ! j \<and> gaussianKernel fp 25 ! j \<le> 1 / 16"
proof -
  note R = ieee_f64[OF i] and S = ieee_f32[OF i]
  define raw where "raw = (\<lambda>i::nat. f32 fp (mathExp fp
      (f64 fp (- f64 fp (real_of_int (int i - int 75) * real_of_int (int i - int 75))
               / f64 fp (f64 fp (2 * 25) * 25)))))"
  define N where "N = (151::nat)"
  define ksum where "ksum = foldl (\<lambda>ksum v. f64 fp (ksum + v)) 0 (map raw [0..<N])"
  have kernel: "gaussianKernel fp 25 = map (\<lambda>v. f32 fp (f64 fp (v / ksum))) (map raw [0..<N])"
    unfolding N_def ksum_def
    by (simp add: gaussianKernel_def Let_def kernelRadius_25[OF i] raw_def
          del: upt_Suc upt_rec_numeral)
  show "length (gaussianKernel fp 25) = 151" by (simp add: kernel N_def del: upt_rec_numeral)
  have d50: "f64 fp (2 * 25) = 50"
    using round_exact[OF R, where m = 50 and k = 0 and x = 50] by simp
  have d1250: "f64 fp (50 * 25) = 1250"
    using round_exact[OF R, where m = 1250 and k = 0 and x = 1250] by simp
  have arg: "- 9 / 2 \<le> f64 fp (- f64 fp (real_of_int (int n - int 75) * real_of_int (int n - int 75))
               / f64 fp (f64 fp (2 * 25) * 25))
      \<and> f64 fp (- f64 fp (real_of_int (int n - int 75) * real_of_int (int n - int 75))
               / f64 fp (f64 fp (2 * 25) * 25)) \<le> 0
      \<and> (55 \<le> n \<and> n \<le> 95 \<longrightarrow>
          - 3 / 8 \<le> f64 fp (- f64 fp (real_of_int (int n - int 75) * real_of_int (int n - int 75))
               / f64 fp (f64 fp (2 * 25) * 25)))"
    if n: "n < 151" for n
  proof -
    define x where "x = int n - int 75"
    have xb: "- 75 \<le> x" "x \<le> 75" using n by (simp_all add: x_def)
    have sq: "0 \<le> x * x" "x * x \<le> 5625"
    proof -
      show "0 \<le> x * x" by simp
      have "\<bar>x\<bar> \<le> 75" using xb by simp
      then have "\<bar>x\<bar> * \<bar>x\<bar> \<le> 75 * 75" by (intro mult_mono) simp_all
      then show "x * x \<le> 5625" by simp
    qed
    have ex: "f64 fp (real_of_int x * real_of_int x) = real_of_int (x * x)"
      using round_exact[OF R, where m = "x * x" and k = 0 and x = "real_of_int x * real_of_int x"] sq
      by simp
    define q where "q = - real_of_int (x * x) / 1250"
    have q: "- 9 / 2 \<le> q" "q \<le> 0"
    proof -
      have "real_of_int (x * x) \<le> 5625" using sq(2) by (simp only: of_int_le_iff[symmetric, where 'a = real])
      then show "- 9 / 2 \<le> q" by (simp add: q_def)
      have "0 \<le> real_of_int (x * x)" using sq(1) by (simp only: of_int_0_le_iff)
      then show "q \<le> 0" by (simp add: q_def)
    qed
    have lo: "f64 fp (- 9 / 2) = - 9 / 2"
      using round_exact[OF R, where m = "- 9" and k = 1 and x = "- 9 / 2"] by simp
    have z: "f64 fp 0 = 0" by (rule round_zero[OF R])
    have 1: "- 9 / 2 \<le> f64 fp q" using round_mono[OF R q(1)] lo by simp
    have 2: "f64 fp q \<le> 0" using round_mono[OF R q(2)] z by simp
    have 3: "- 3 / 8 \<le> f64 fp q" if mid: "55 \<le> n \<and> n \<le> 95"
    proof -
      have "\<bar>x\<bar> \<le> 20" using mid unfolding x_def by linarith
      then have "\<bar>x\<bar> * \<bar>x\<bar> \<le> 20 * 20" by (intro mult_mono) simp_all
      then have "x * x \<le> 400" by simp
      then have "real_of_int (x * x) \<le> 400" by (simp only: of_int_le_iff[symmetric, where 'a = real])
      then have "- 3 / 8 \<le> q" by (simp add: q_def)
      from round_mono[OF R this] round_exact[OF R, where m = "- 3" and k = 3 and x = "- 3 / 8"]
      show ?thesis by simp
    qed
    have "f64 fp (- f64 fp (real_of_int (int n - int 75) * real_of_int (int n - int 75))
               / f64 fp (f64 fp (2 * 25) * 25)) = f64 fp q"
      unfolding d50 d1250 x_def[symmetric] ex q_def by simp
    with 1 2 3 show ?thesis by simp
  qed
  have raw0: "0 \<le> raw n" and raw1: "raw n \<le> 1 + 1 / 2 ^ 20"
    and rawmid: "55 \<le> n \<and> n \<le> 95 \<Longrightarrow> 1 / 2 \<le> raw n" if n: "n < 151" for n
  proof -
    let ?y = "f64 fp (- f64 fp (real_of_int (int n - int 75) * real_of_int (int n - int 75))
               / f64 fp (f64 fp (2 * 25) * 25))"
    have y: "- 100 \<le> ?y" "?y \<le> 0" using arg[OF n] by simp_all
    have top: "f32 fp (1 + 1 / 2 ^ 20) = 1 + 1 / 2 ^ 20"
      using round_exact[OF S, where m = "2 ^ 20 + 1" and k = 20 and x = "1 + 1 / 2 ^ 20"]
      by (simp add: field_simps)
    have half: "f32 fp (1 / 2) = 1 / 2"
      using round_exact[OF S, where m = 1 and k = 1 and x = "1 / 2"] by simp
    show "0 \<le> raw n"
      unfolding raw_def by (rule round_nonneg[OF S mathExp_bounds(1)[OF i y]])
    show "raw n \<le> 1 + 1 / 2 ^ 20"
      unfolding raw_def using round_mono[OF S mathExp_bounds(2)[OF i y]] top by simp
    assume "55 \<le> n \<and> n \<le> 95"
    with arg[OF n] have "- 3 / 8 \<le> ?y" by simp
    from round_mono[OF S mathExp_bounds(3)[OF i y this]] half
    show "1 / 2 \<le> raw n" unfolding raw_def by simp
  qed
  have mult: "f64 fp (real n * (1 / 2)) = real n * (1 / 2)" if "n \<le> 151" for n
    using round_multiple[OF R, where m = 1 and n = n and k = 1] that by simp
  have "96 - 55 \<le> length (filter (\<lambda>t. 1 / 2 \<le> t) (map raw [0..<N]))"
  proof (rule count_range)
    show "(55::nat) \<le> 96" by simp
    show "96 \<le> N" by (simp add: N_def)
    show "1 / 2 \<le> raw n" if "55 \<le> n" "n < 96" for n
      using rawmid[of n] that by simp
  qed
  then have cnt: "41 \<le> length (filter (\<lambda>t. 1 / 2 \<le> t) (map raw [0..<N]))" by simp
  have "real (0 + length (filter (\<lambda>t. 1 / 2 \<le> t) (map raw [0..<N]))) * (1 / 2) \<le> ksum"
    unfolding ksum_def
  proof (rule sum_loop_lower[OF R, where N = 151])
    show "f64 fp (real n * (1 / 2)) = real n * (1 / 2)" if "n \<le> 151" for n
      by (rule mult[OF that])
    show "(0::real) \<le> 1 / 2" by simp
    show "real 0 * (1 / 2) \<le> (0::real)" by simp
    show "\<forall>t \<in> set (map raw [0..<N]). 0 \<le> t"
      unfolding set_map set_upt using raw0 by (auto simp: N_def)
    have "length (filter (\<lambda>t. 1 / 2 \<le> t) (map raw [0..<N])) \<le> length (map raw [0..<N])"
      by (rule length_filter_le)
    then show "0 + length (filter (\<lambda>t. 1 / 2 \<le> t) (map raw [0..<N])) \<le> 151"
      by (simp add: N_def)
  qed
  with cnt have ks: "41 / 2 \<le> ksum" by simp
  assume j: "j < 151"
  have kj: "gaussianKernel fp 25 ! j = f32 fp (f64 fp (raw j / ksum))"
    using j by (simp add: kernel N_def del: upt_Suc upt_rec_numeral)
  have q0: "0 \<le> raw j / ksum" using raw0[OF j] ks by simp
  have "raw j / ksum \<le> (1 + 1 / 2 ^ 20) / (41 / 2)"
    using raw1[OF j] raw0[OF j] ks by (intro frac_le) simp_all
  also have "\<dots> \<le> 1 / 16" by simp
  finally have q1: "raw j / ksum \<le> 1 / 16" .
  have s16: "f64 fp (1 / 16) = 1 / 16" "f32 fp (1 / 16) = 1 / 16"
    using round_exact[OF R, where m = 1 and k = 4 and x = "1 / 16"]
      round_exact[OF S, where m = 1 and k = 4 and x = "1 / 16"] by simp_all
  have "0 \<le> f32 fp (f64 fp (raw j / ksum))"
    by (intro round_nonneg[OF S] round_nonneg[OF R] q0)
  moreover have "f32 fp (f64 fp (raw j / ksum)) \<le> 1 / 16"
    using round_mono[OF S round_mono[OF R q1]] s16 by simp
  ultimately show "0 \<le> gaussianKernel fp 25 ! j \<and> gaussianKernel fp 25 ! j \<le> 1 / 16"
    by (simp add: kj)
qed

subsection \<open>The two passes of the blur\<close>

lemma clampIndex_less: "0 < n \<Longrightarrow> clampIndex i n < n"
  by (auto simp: clampIndex_def)

lemma pixel_index_less:
  assumes "y < h" and "x < w"
  shows "y * w + x < w * (h::nat)"
proof -
  have "y * w + x < y * w + w" using assms(2) by simp
  also have "\<dots> = (Suc y) * w" by simp
  also have "\<dots> \<le> h * w" using assms(1) by (intro mult_le_mono1) simp
  finally show ?thesis by (simp add: mult.commute)
qed

lemma pixel_row_col:
  assumes "i < w * (h::nat)"
  shows "0 < w" and "0 < h" and "i div w < h" and "i mod w < w"
proof -
  show w: "0 < w" using assms by (cases w) auto
  show "0 < h" using assms by (cases h) auto
  show "i div w < h" using assms w by (simp add: less_mult_imp_div_less mult.commute)
  show "i mod w < w" using w by simp
qed

lemma length_horizontalPass [simp]: "length (horizontalPass fp src w h r K) = w * h"
  by (simp add: horizontalPass_def)

lemma length_verticalPass [simp]: "length (verticalPass fp tmp w h r K) = w * h"
  by (simp add: verticalPass_def)

lemma length_gaussianBlur [simp]: "length (gaussianBlur fp src w h sigma) = w * h"
  by (simp add: gaussianBlur_def Let_def)

lemma horizontalPass_nth:
  "i < w * h \<Longrightarrow>
     horizontalPass fp src w h r K ! i =
       f32 fp (foldl (\<lambda>acc t. f64 fp (acc + t)) 0
         (map (\<lambda>j. f64 fp (src ! (i div w * w + clampIndex (int (i mod w) + (int j - int r)) w) * K ! j))
              [0..<2 * r + 1]))"
  by (simp add: horizontalPass_def Let_def foldl_map del: upt_Suc)

lemma verticalPass_nth:
  "i < w * h \<Longrightarrow>
     verticalPass fp tmp w h r K ! i =
       f32 fp (foldl (\<lambda>acc t. f64 fp (acc + t)) 0
         (map (\<lambda>j. f64 fp (tmp ! (clampIndex (int (i div w) + (int j - int r)) h * w + i mod w) * K ! j))
              [0..<2 * r + 1]))"
  by (simp add: verticalPass_def Let_def foldl_map del: upt_Suc)

lemma horizontalPass_nonneg:
  assumes R: "roundsToNearest (f64 fp)" and S: "roundsToNearest (f32 fp)"
    and ker: "\<And>j. j < 2 * r + 1 \<Longrightarrow> 0 \<le> K ! j"
    and src: "\<And>k. k < w * h \<Longrightarrow> 0 \<le> src ! k"
    and i: "i < w * h"
  shows "0 \<le> horizontalPass fp src w h r K ! i"
proof -
  note rc = pixel_row_col[OF i]
  have "0 \<le> f64 fp (src ! (i div w * w + clampIndex (int (i mod w) + (int j - int r)) w) * K ! j)"
    if "j < 2 * r + 1" for j
    by (intro round_nonneg[OF R] mult_nonneg_nonneg src ker[OF that]
          pixel_index_less[OF rc(3)] clampIndex_less[OF rc(1)])
  then show ?thesis
    unfolding horizontalPass_nth[OF i]
    by (intro round_nonneg[OF S] sum_loop_nonneg[OF R]) (auto simp del: upt_Suc)
qed

lemma verticalPass_nonneg:
  assumes R: "roundsToNearest (f64 fp)" and S: "roundsToNearest (f32 fp)"
    and ker: "\<And>j. j < 2 * r + 1 \<Longrightarrow> 0 \<le> K ! j"
    and tmp: "\<And>k. k < w * h \<Longrightarrow> 0 \<le> tmp ! k"
    and i: "i < w * h"
  shows "0 \<le> verticalPass fp tmp w h r K ! i"
proof -
  note rc = pixel_row_col[OF i]
  have "0 \<le> f64 fp (tmp ! (clampIndex (int (i div w) + (int j - int r)) h * w + i mod w) * K ! j)"
    if "j < 2 * r + 1" for j
    by (intro round_nonneg[OF R] mult_nonneg_nonneg tmp ker[OF that]
          pixel_index_less[OF clampIndex_less[OF rc(2)] rc(4)])
  then show ?thesis
    unfolding verticalPass_nth[OF i]
    by (intro round_nonneg[OF S] sum_loop_nonneg[OF R]) (auto simp del: upt_Suc)
qed

lemma length_grayField [simp]: "length (grayField fp img) = width img * height img"
  by (simp add: grayField_def)

lemma grayField_nth:
  "i < width img * height img \<Longrightarrow>
     grayField fp img ! i =
       f32 fp (f64 fp (f64 fp (f64 fp (f64 fp 0.299 * real (data img ! (i * 4)))
                              + f64 fp (f64 fp 0.587 * real (data img ! (i * 4 + 1))))
                     + f64 fp (f64 fp 0.114 * real (data img ! (i * 4 + 2)))))"
  by (simp add: grayField_def)

lemma grayField_nonneg:
  assumes i: "ieee fp" and n: "i < width img * height img"
  shows "0 \<le> grayField fp img ! i"
proof -
  note R = ieee_f64[OF i] and S = ieee_f32[OF i]
  have c: "0 \<le> f64 fp 0.299" "0 \<le> f64 fp 0.587" "0 \<le> f64 fp 0.114"
    by (rule round_nonneg[OF R], simp)+
  show ?thesis
    unfolding grayField_nth[OF n]
    by (intro round_nonneg[OF S] round_nonneg[OF R] add_nonneg_nonneg mult_nonneg_nonneg c) simp_all
qed

lemma bgField_nonneg:
  assumes i: "ieee fp" and n: "i < width img * height img"
  shows "0 \<le> bgField fp img ! i"
proof -
  note R = ieee_f64[OF i] and S = ieee_f32[OF i]
  have ker: "0 \<le> gaussianKernel fp 25 ! j" if "j < 2 * 75 + 1" for j
    using gaussianKernel_25(2)[OF i, of j] that by simp
  have tmp: "0 \<le> horizontalPass fp (grayField fp img) (width img) (height img) 75 (gaussianKernel fp 25) ! k"
    if "k < width img * height img" for k
    by (rule horizontalPass_nonneg[OF R S ker grayField_nonneg[OF i] that])
  show ?thesis
    unfolding bgField_def gaussianBlur_def Let_def kernelRadius_25[OF i]
    by (rule verticalPass_nonneg[OF R S ker tmp n])
qed

subsection \<open>The normalization step\<close>

lemma normPixel_blend:
  "normPixel fp g b =
     f32 fp (min 255 (max 0
       (f64 fp (f64 fp (f64 fp (f64 fp (f64 fp (g + 1) / f64 fp (b + 1)) * 255) * 0.5)
              + f64 fp (g * f64 fp (1 - 0.5))))))"
  by (simp add: normPixel_def blendFactor_def Let_def)

lemma clampFirstPixel_blend:
  "clampFirstPixel fp g b =
     f32 fp (f64 fp (f64 fp (min 255 (max 0 (f64 fp (f64 fp (f64 fp (g + 1) / f64 fp (b + 1)) * 255))) * 0.5)
                   + f64 fp (g * f64 fp (1 - 0.5))))"
  by (simp add: clampFirstPixel_def blendFactor_def Let_def)

lemma normPixel_range:
  assumes i: "ieee fp"
  shows "0 \<le> normPixel fp g b" and "normPixel fp g b \<le> 255"
proof -
  note S = ieee_f32[OF i]
  have e: "f32 fp 255 = 255"
    using round_exact[OF S, where m = 255 and k = 0 and x = 255] by simp
  show "0 \<le> normPixel fp g b"
    unfolding normPixel_blend by (rule round_nonneg[OF S]) simp
  have "f32 fp (min 255 (max 0 v)) \<le> f32 fp 255" for v
    by (rule round_mono[OF S]) simp
  then show "normPixel fp g b \<le> 255"
    unfolding normPixel_blend e .
qed

lemma normPixel_saturated:
  assumes i: "ieee fp"
    and "255 \<le> f64 fp (f64 fp (f64 fp (f64 fp (f64 fp (g + 1) / f64 fp (b + 1)) * 255) * 0.5)
                       + f64 fp (g * f64 fp (1 - 0.5)))"
  shows "normPixel fp g b = 255"
proof -
  have e: "f32 fp 255 = 255"
    using round_exact[OF ieee_f32[OF i], where m = 255 and k = 0 and x = 255] by simp
  show ?thesis unfolding normPixel_blend using assms(2) e by (simp add: min_absorb1 max_absorb2)
qed

text \<open>
  Where the normalized value does not exceed 255, clamping it first changes nothing, and
  the blend stays below 255: the code's value and the value of the specification's
  wording are the same number.
\<close>

lemma normPixel_eq_clampFirst:
  assumes i: "ieee fp" and g: "0 \<le> g" "g \<le> 255" and b: "0 \<le> b"
    and nv: "f64 fp (f64 fp (f64 fp (g + 1) / f64 fp (b + 1)) * 255) \<le> 255"
  shows "normPixel fp g b = clampFirstPixel fp g b"
proof -
  note R = ieee_f64[OF i]
  define nv where "nv = f64 fp (f64 fp (f64 fp (g + 1) / f64 fp (b + 1)) * 255)"
  have "0 \<le> f64 fp (g + 1)" "0 \<le> f64 fp (b + 1)"
    using g b by (auto intro!: round_nonneg[OF R])
  then have "0 \<le> f64 fp (g + 1) / f64 fp (b + 1)" by (rule divide_nonneg_nonneg)
  then have "0 \<le> f64 fp (f64 fp (g + 1) / f64 fp (b + 1))" by (rule round_nonneg[OF R])
  then have "0 \<le> f64 fp (f64 fp (g + 1) / f64 fp (b + 1)) * 255" by simp
  then have nv0: "0 \<le> nv"
    unfolding nv_def by (rule round_nonneg[OF R])
  have nv1: "nv \<le> 255" using nv by (simp add: nv_def)
  have half: "f64 fp (1 - 0.5) = 1 / 2"
    using round_exact[OF R, where m = 1 and k = 1 and x = "1 / 2"] by simp
  have e1: "f64 fp (255 / 2) = 255 / 2"
    using round_exact[OF R, where m = 255 and k = 1 and x = "255 / 2"] by simp
  have e2: "f64 fp 255 = 255"
    using round_exact[OF R, where m = 255 and k = 0 and x = 255] by simp
  define blend where "blend = f64 fp (f64 fp (nv * 0.5) + f64 fp (g * f64 fp (1 - 0.5)))"
  have a0: "0 \<le> f64 fp (nv * 0.5)" using nv0 by (intro round_nonneg[OF R]) simp
  have a1: "f64 fp (nv * 0.5) \<le> 255 / 2"
    using round_mono[OF R, of "nv * 0.5" "255 / 2"] nv1 e1 by simp
  have c0: "0 \<le> f64 fp (g * f64 fp (1 - 0.5))"
    unfolding half using g by (intro round_nonneg[OF R]) simp
  have c1: "f64 fp (g * f64 fp (1 - 0.5)) \<le> 255 / 2"
    unfolding half using round_mono[OF R, of "g * (1 / 2)" "255 / 2"] g e1 by simp
  have b0: "0 \<le> blend" unfolding blend_def using a0 c0 by (intro round_nonneg[OF R]) simp
  have b1: "blend \<le> 255"
    unfolding blend_def
    using round_mono[OF R, of "f64 fp (nv * 0.5) + f64 fp (g * f64 fp (1 - 0.5))" 255] a1 c1 e2
    by simp
  have "normPixel fp g b = f32 fp (min 255 (max 0 blend))"
    unfolding normPixel_blend blend_def nv_def by (rule refl)
  also have "\<dots> = f32 fp blend" using b0 b1 by (simp add: min_absorb2 max_absorb2)
  also have "\<dots> = clampFirstPixel fp g b"
    unfolding clampFirstPixel_blend blend_def nv_def[symmetric]
    using nv0 nv1 by (simp add: min_absorb2 max_absorb2)
  finally show ?thesis .
qed

lemma length_normField [simp]: "length (normField fp img) = width img * height img"
  by (simp add: normField_def)

lemma normField_nth:
  "i < width img * height img \<Longrightarrow>
     normField fp img ! i = normPixel fp (grayField fp img ! i) (bgField fp img ! i)"
  by (simp add: normField_def)

text \<open>
  C5 (amended).  The normalized value is not clamped before the blend; the blend is
  clamped.  For every pixel of a well-formed image, with
  \<open>normalized = (gray + 1) / (background + 1) * 255\<close> left as it is, the code blends
  \<open>normalized * 0.5 + gray * (1 - 0.5)\<close>, clamps the blend to the range from 0 to 255 and
  stores it; every operation is rounded as the floating-point arithmetic of the source
  rounds it.  The stored value lies between 0 and 255, it is 255 whenever the blend reaches
  255, and it is the value of the specification's wording whenever the normalized value and
  the grey value are at most 255.  Here \<open>gray\<close> is the stored luminance of the pixel and
  \<open>background\<close> the blur of the luminance with \<open>sigma = 25\<close>.
\<close>

theorem normField_blend_then_clamp:
  assumes fp: "ieee fp" and wf: "wfImage img" and i: "i < width img * height img"
  shows "let gray = grayField fp img ! i;
             background = bgField fp img ! i;
             normalized = f64 fp (f64 fp (f64 fp (gray + 1) / f64 fp (background + 1)) * 255);
             blend = f64 fp (f64 fp (normalized * 0.5) + f64 fp (gray * f64 fp (1 - 0.5)))
         in normField fp img ! i = f32 fp (min 255 (max 0 blend))
          \<and> 0 \<le> normField fp img ! i \<and> normField fp img ! i \<le> 255
          \<and> (255 \<le> blend \<longrightarrow> normField fp img ! i = 255)
          \<and> (normalized \<le> 255 \<and> gray \<le> 255 \<longrightarrow>
                normField fp img ! i = clampFirstPixel fp gray background)
          \<and> gray = f32 fp (f64 fp (f64 fp (f64 fp (f64 fp 0.299 * real (data img ! (i * 4)))
                                          + f64 fp (f64 fp 0.587 * real (data img ! (i * 4 + 1))))
                                  + f64 fp (f64 fp 0.114 * real (data img ! (i * 4 + 2)))))
          \<and> background = gaussianBlur fp (grayField fp img) (width img) (height img) 25 ! i"
proof -
  have g0: "0 \<le> grayField fp img ! i" by (rule grayField_nonneg[OF fp i])
  have b0: "0 \<le> bgField fp img ! i" by (rule bgField_nonneg[OF fp i])
  show ?thesis
    unfolding Let_def normField_nth[OF i]
    using normPixel_range[OF fp, of "grayField fp img ! i" "bgField fp img ! i"]
      normPixel_saturated[OF fp, of "grayField fp img ! i" "bgField fp img ! i"]
      normPixel_eq_clampFirst[OF fp g0 _ b0]
      grayField_nth[OF i, of fp]
    by (simp add: normPixel_blend bgField_def)
qed

subsection \<open>A bright pixel between two black ones\<close>

lemma count_nonzero_at_most_one:
  assumes "\<And>j. j < n \<Longrightarrow> j \<noteq> a \<Longrightarrow> f j = (0::real)"
  shows "length (filter (\<lambda>t. t \<noteq> 0) (map f [0..<n])) \<le> 1"
proof (cases "a < n")
  case False
  have "\<not> t \<noteq> 0" if "t \<in> set (map f [0..<n])" for t
    using that assms False by auto
  then have "filter (\<lambda>t. t \<noteq> 0) (map f [0..<n]) = []"
    by (intro filter_False ballI)
  then show ?thesis by simp
next
  case True
  have "[0..<n] = [0..<Suc a] @ [Suc a..<n]"
    using upt_add_eq_append[of 0 "Suc a" "n - Suc a"] True by simp
  then have sp: "[0..<n] = [0..<a] @ [a] @ [Suc a..<n]" by simp
  have "\<not> t \<noteq> 0" if "t \<in> set (map f [0..<a])" for t
    using that assms True by auto
  then have 1: "filter (\<lambda>t. t \<noteq> 0) (map f [0..<a]) = []"
    by (intro filter_False ballI)
  have "\<not> t \<noteq> 0" if "t \<in> set (map f [Suc a..<n])" for t
    using that assms by auto
  then have 2: "filter (\<lambda>t. t \<noteq> 0) (map f [Suc a..<n]) = []"
    by (intro filter_False ballI)
  show ?thesis unfolding sp using 1 2 by simp
qed

lemma clampIndex_one [simp]: "clampIndex i 1 = 0" "clampIndex i (Suc 0) = 0"
  by (simp_all add: clampIndex_def)

lemma clampIndex_three:
  "clampIndex i 3 = (if i \<le> 0 then 0 else if i = 1 then 1 else 2)"
  by (auto simp: clampIndex_def)

text \<open>
  A picture of three pixels in a row: black, the grey \<open>(240, 240, 240)\<close>, black.  Under
  the rounding assumptions the luminance of the black pixels is 0 and that of the grey
  pixel lies between \<open>221.25\<close> and \<open>247.5\<close>.
\<close>

lemma round_le:
  "roundsToNearest r \<Longrightarrow> x \<le> c \<Longrightarrow> c = real_of_int m / 2 ^ k \<Longrightarrow> \<bar>m\<bar> \<le> 2 ^ 24 \<Longrightarrow> k \<le> 64
     \<Longrightarrow> r x \<le> c"
  using round_mono[of r x c] round_exact[of r c m k] by simp

lemma round_ge:
  "roundsToNearest r \<Longrightarrow> c \<le> x \<Longrightarrow> c = real_of_int m / 2 ^ k \<Longrightarrow> \<bar>m\<bar> \<le> 2 ^ 24 \<Longrightarrow> k \<le> 64
     \<Longrightarrow> c \<le> r x"
  using round_mono[of r c x] round_exact[of r c m k] by simp

lemma three_pixel_gray:
  assumes i: "ieee fp"
  defines "img \<equiv> \<lparr>data = [0, 0, 0, 255, 240, 240, 240, 255, 0, 0, 0, 255], width = 3, height = 1\<rparr>"
  shows "wfImage img"
    and "grayField fp img ! 0 = 0" and "grayField fp img ! 2 = 0"
    and "885 / 4 \<le> grayField fp img ! 1" and "grayField fp img ! 1 \<le> 495 / 2"
proof -
  note R = ieee_f64[OF i] and S = ieee_f32[OF i]
  show "wfImage img" by (simp add: img_def wfImage_def)
  have z: "f64 fp 0 = 0" "f32 fp 0 = 0" by (rule round_zero[OF R], rule round_zero[OF S])
  show "grayField fp img ! 0 = 0"
    by (simp add: grayField_def img_def z)
  show "grayField fp img ! 2 = 0"
    by (simp add: grayField_def img_def z)
  have c1: "1 / 4 \<le> f64 fp 0.299" "f64 fp 0.299 \<le> 5 / 16"
  proof -
    show "1 / 4 \<le> f64 fp 0.299"
      by (rule round_ge[OF R, where m = 1 and k = 2]) simp_all
    show "f64 fp 0.299 \<le> 5 / 16"
      by (rule round_le[OF R, where m = 5 and k = 4]) simp_all
  qed
  have c2: "9 / 16 \<le> f64 fp 0.587" "f64 fp 0.587 \<le> 19 / 32"
  proof -
    show "9 / 16 \<le> f64 fp 0.587"
      by (rule round_ge[OF R, where m = 9 and k = 4]) simp_all
    show "f64 fp 0.587 \<le> 19 / 32"
      by (rule round_le[OF R, where m = 19 and k = 5]) simp_all
  qed
  have c3: "7 / 64 \<le> f64 fp 0.114" "f64 fp 0.114 \<le> 1 / 8"
  proof -
    show "7 / 64 \<le> f64 fp 0.114"
      by (rule round_ge[OF R, where m = 7 and k = 6]) simp_all
    show "f64 fp 0.114 \<le> 1 / 8"
      by (rule round_le[OF R, where m = 1 and k = 3]) simp_all
  qed
  define p1 where "p1 = f64 fp (f64 fp 0.299 * 240)"
  define p2 where "p2 = f64 fp (f64 fp 0.587 * 240)"
  define p3 where "p3 = f64 fp (f64 fp 0.114 * 240)"
  have p1: "60 \<le> f64 fp (f64 fp 0.299 * 240)" "f64 fp (f64 fp 0.299 * 240) \<le> 75"
  proof -
    show "60 \<le> f64 fp (f64 fp 0.299 * 240)"
      by (rule round_ge[OF R, where m = 60 and k = 0]) (use c1 in simp_all)
    show "f64 fp (f64 fp 0.299 * 240) \<le> 75"
      by (rule round_le[OF R, where m = 75 and k = 0]) (use c1 in simp_all)
  qed
  have p2: "135 \<le> f64 fp (f64 fp 0.587 * 240)" "f64 fp (f64 fp 0.587 * 240) \<le> 285 / 2"
  proof -
    show "135 \<le> f64 fp (f64 fp 0.587 * 240)"
      by (rule round_ge[OF R, where m = 135 and k = 0]) (use c2 in simp_all)
    show "f64 fp (f64 fp 0.587 * 240) \<le> 285 / 2"
      by (rule round_le[OF R, where m = 285 and k = 1]) (use c2 in simp_all)
  qed
  have p3: "105 / 4 \<le> f64 fp (f64 fp 0.114 * 240)" "f64 fp (f64 fp 0.114 * 240) \<le> 30"
  proof -
    show "105 / 4 \<le> f64 fp (f64 fp 0.114 * 240)"
      by (rule round_ge[OF R, where m = 105 and k = 2]) (use c3 in simp_all)
    show "f64 fp (f64 fp 0.114 * 240) \<le> 30"
      by (rule round_le[OF R, where m = 30 and k = 0]) (use c3 in simp_all)
  qed
  note p1 = p1[folded p1_def] and p2 = p2[folded p2_def] and p3 = p3[folded p3_def]
  have s1: "195 \<le> f64 fp (p1 + p2)" "f64 fp (p1 + p2) \<le> 435 / 2"
  proof -
    show "195 \<le> f64 fp (p1 + p2)"
      by (rule round_ge[OF R, where m = 195 and k = 0]) (use p1 p2 in simp_all)
    show "f64 fp (p1 + p2) \<le> 435 / 2"
      by (rule round_le[OF R, where m = 435 and k = 1]) (use p1 p2 in simp_all)
  qed
  have s2: "885 / 4 \<le> f64 fp (f64 fp (p1 + p2) + p3)" "f64 fp (f64 fp (p1 + p2) + p3) \<le> 495 / 2"
  proof -
    show "885 / 4 \<le> f64 fp (f64 fp (p1 + p2) + p3)"
      by (rule round_ge[OF R, where m = 885 and k = 2]) (use s1 p3 in simp_all)
    show "f64 fp (f64 fp (p1 + p2) + p3) \<le> 495 / 2"
      by (rule round_le[OF R, where m = 495 and k = 1]) (use s1 p3 in simp_all)
  qed
  have g: "grayField fp img ! 1 = f32 fp (f64 fp (f64 fp (p1 + p2) + p3))"
    by (simp add: grayField_def img_def p1_def p2_def p3_def)
  show "885 / 4 \<le> grayField fp img ! 1"
    unfolding g by (rule round_ge[OF S s2(1), where m = 885 and k = 2]) simp_all
  show "grayField fp img ! 1 \<le> 495 / 2"
    unfolding g by (rule round_le[OF S s2(2), where m = 495 and k = 1]) simp_all
qed

text \<open>
  The background estimate of the grey pixel is at most 151: in the pass along the row only
  the centre of the kernel meets the grey pixel, so the intermediate value is at most
  \<open>247.5 / 16\<close>; in the pass along the column each of the 151 products is at most 1.
\<close>

lemma three_pixel_background:
  assumes i: "ieee fp"
  defines "img \<equiv> \<lparr>data = [0, 0, 0, 255, 240, 240, 240, 255, 0, 0, 0, 255], width = 3, height = 1\<rparr>"
  shows "0 \<le> bgField fp img ! 1" and "bgField fp img ! 1 \<le> 151"
proof -
  note R = ieee_f64[OF i] and S = ieee_f32[OF i]
  note gray = three_pixel_gray[OF i, folded img_def]
  have n: "1 < width img * height img" by (simp add: img_def)
  show "0 \<le> bgField fp img ! 1" by (rule bgField_nonneg[OF i n])
  define K where "K = gaussianKernel fp 25"
  define N where "N = (151::nat)"
  have N: "2 * 75 + 1 = N" by (simp add: N_def)
  have K0: "0 \<le> K ! j" and K1: "K ! j \<le> 1 / 16" if "j < N" for j
    using gaussianKernel_25(2)[OF i, of j] that by (simp_all add: K_def N_def)
  define tmp where "tmp = horizontalPass fp (grayField fp img) 3 1 75 K"
  define hterm where "hterm = (\<lambda>j. f64 fp
      (grayField fp img ! (1 div 3 * 3 + clampIndex (int (1 mod 3) + (int j - int 75)) 3) * K ! j))"
  have z: "f64 fp 0 = 0" by (rule round_zero[OF R])
  have off: "hterm j = 0" if "j \<noteq> 75" for j
  proof -
    have "clampIndex (int (1 mod 3) + (int j - int 75)) 3 = 0 \<or>
          clampIndex (int (1 mod 3) + (int j - int 75)) 3 = 2"
      using that by (auto simp: clampIndex_three)
    then show ?thesis
      unfolding hterm_def using gray(2,3) z by auto
  qed
  have centre: "hterm 75 \<le> 495 / 32"
  proof -
    have "grayField fp img ! 1 * K ! 75 \<le> 495 / 2 * (1 / 16)"
      using gray(5) K0[of 75] K1[of 75] gray(4) by (intro mult_mono) (simp_all add: N_def)
    then have b: "grayField fp img ! 1 * K ! 75 \<le> 495 / 32" by simp
    have "f64 fp (grayField fp img ! 1 * K ! 75) \<le> 495 / 32"
      by (rule round_le[OF R b, where m = 495 and k = 5]) simp_all
    moreover have "hterm 75 = f64 fp (grayField fp img ! 1 * K ! 75)"
      by (simp add: hterm_def clampIndex_three)
    ultimately show ?thesis by (simp only:)
  qed
  have le: "\<forall>t \<in> set (map hterm [0..<N]). t \<le> 495 / 32"
  proof
    fix t assume "t \<in> set (map hterm [0..<N])"
    then obtain j where "t = hterm j" by auto
    then show "t \<le> 495 / 32" using off[of j] centre by (cases "j = 75") simp_all
  qed
  have cnt: "length (filter (\<lambda>t. t \<noteq> 0) (map hterm [0..<N])) \<le> 1"
    by (rule count_nonzero_at_most_one[where a = 75]) (rule off)
  have mult1: "f64 fp (real n * (495 / 32)) = real n * (495 / 32)" if "n \<le> 1" for n
    using round_multiple[OF R, where m = 495 and n = n and k = 5] that by simp
  have "foldl (\<lambda>acc t. f64 fp (acc + t)) 0 (map hterm [0..<N])
      \<le> real (0 + length (filter (\<lambda>t. t \<noteq> 0) (map hterm [0..<N]))) * (495 / 32)"
    by (rule sum_loop_upper[OF R, where N = 1]) (use mult1 le cnt in simp_all)
  also have "\<dots> \<le> 495 / 32" using cnt by simp
  finally have acc: "foldl (\<lambda>acc t. f64 fp (acc + t)) 0 (map hterm [0..<N]) \<le> 495 / 32" .
  have "tmp ! 1 = f32 fp (foldl (\<lambda>acc t. f64 fp (acc + t)) 0 (map hterm [0..<N]))"
    unfolding tmp_def hterm_def N[symmetric] by (rule horizontalPass_nth) simp
  moreover have "f32 fp (foldl (\<lambda>acc t. f64 fp (acc + t)) 0 (map hterm [0..<N])) \<le> 495 / 32"
    by (rule round_le[OF S acc, where m = 495 and k = 5]) simp_all
  ultimately have tmp1: "tmp ! 1 \<le> 495 / 32" by (simp only:)
  have tmp0: "0 \<le> tmp ! 1"
    unfolding tmp_def
  proof (rule horizontalPass_nonneg[OF R S])
    show "0 \<le> K ! j" if "j < 2 * 75 + 1" for j using K0[of j] that by (simp add: N_def)
    show "0 \<le> grayField fp img ! k" if "k < 3 * 1" for k
      using grayField_nonneg[OF i, of k img] that by (simp add: img_def)
    show "(1::nat) < 3 * 1" by simp
  qed
  define vterm where "vterm = (\<lambda>j. f64 fp
      (tmp ! (clampIndex (int (1 div 3) + (int j - int 75)) 1 * 3 + 1 mod 3) * K ! j))"
  have vle: "\<forall>t \<in> set (map vterm [0..<N]). t \<le> 1"
  proof
    fix t assume "t \<in> set (map vterm [0..<N])"
    then obtain j where j: "j < N" "t = vterm j" by auto
    have "tmp ! 1 * K ! j \<le> 16 * (1 / 16)"
      using tmp0 tmp1 K0[OF j(1)] K1[OF j(1)] by (intro mult_mono) simp_all
    then have b: "tmp ! 1 * K ! j \<le> 1" by simp
    have "f64 fp (tmp ! 1 * K ! j) \<le> 1"
      by (rule round_le[OF R b, where m = 1 and k = 0]) simp_all
    then show "t \<le> 1" by (simp add: j(2) vterm_def)
  qed
  have multN: "f64 fp (real n * 1) = real n * 1" if "n \<le> N" for n
    using round_multiple[OF R, where m = 1 and n = n and k = 0] that by (simp add: N_def)
  have vcnt: "length (filter (\<lambda>t. t \<noteq> 0) (map vterm [0..<N])) \<le> N"
    using length_filter_le[of "\<lambda>t. t \<noteq> 0" "map vterm [0..<N]"] by simp
  have "foldl (\<lambda>acc t. f64 fp (acc + t)) 0 (map vterm [0..<N])
      \<le> real (0 + length (filter (\<lambda>t. t \<noteq> 0) (map vterm [0..<N]))) * 1"
    by (rule sum_loop_upper[OF R, where N = N]) (use multN vle vcnt in simp_all)
  also have "\<dots> \<le> 151" using vcnt by (simp add: N_def)
  finally have vacc: "foldl (\<lambda>acc t. f64 fp (acc + t)) 0 (map vterm [0..<N]) \<le> 151" .
  have "bgField fp img ! 1 = verticalPass fp tmp 3 1 75 K ! 1"
    by (simp add: bgField_def gaussianBlur_def Let_def kernelRadius_25[OF i] tmp_def K_def img_def)
  also have "\<dots> = f32 fp (foldl (\<lambda>acc t. f64 fp (acc + t)) 0 (map vterm [0..<N]))"
    unfolding vterm_def N[symmetric] by (rule verticalPass_nth) simp
  finally have "bgField fp img ! 1 = f32 fp (foldl (\<lambda>acc t. f64 fp (acc + t)) 0 (map vterm [0..<N]))" .
  moreover have "f32 fp (foldl (\<lambda>acc t. f64 fp (acc + t)) 0 (map vterm [0..<N])) \<le> 151"
    by (rule round_le[OF S vacc, where m = 151 and k = 0]) simp_all
  ultimately show "bgField fp img ! 1 \<le> 151" by (simp only:)
qed

text \<open>
  For the grey pixel of this picture the code and the specification's wording differ,
  whatever the rounding: the normalized value is far above 255, the blend exceeds 255 and
  the code stores 255, while clamping the normalized value first gives at most
  \<open>0.5 * 255 + 0.5 * 247.5 = 251.25\<close>.
\<close>

lemma three_pixel_norm:
  assumes i: "ieee fp"
  defines "img \<equiv> \<lparr>data = [0, 0, 0, 255, 240, 240, 240, 255, 0, 0, 0, 255], width = 3, height = 1\<rparr>"
  shows "normField fp img ! 1 = 255"
    and "clampFirstPixel fp (grayField fp img ! 1) (bgField fp img ! 1) \<le> 1005 / 4"
proof -
  note R = ieee_f64[OF i] and S = ieee_f32[OF i]
  note gray = three_pixel_gray[OF i, folded img_def]
  note bg = three_pixel_background[OF i, folded img_def]
  define g where "g = grayField fp img ! 1"
  define b where "b = bgField fp img ! 1"
  have g: "885 / 4 \<le> g" "g \<le> 495 / 2" using gray(4,5) by (simp_all add: g_def)
  have b: "0 \<le> b" "b \<le> 151" using bg by (simp_all add: b_def)
  have half: "f64 fp (1 - 0.5) = 1 / 2"
    using round_exact[OF R, where m = 1 and k = 1 and x = "1 / 2"] by simp
  have num: "889 / 4 \<le> f64 fp (g + 1)"
    by (rule round_ge[OF R, where m = 889 and k = 2]) (use g in simp_all)
  have den1: "f64 fp (b + 1) \<le> 152"
    by (rule round_le[OF R, where m = 152 and k = 0]) (use b in simp_all)
  have den0: "1 \<le> f64 fp (b + 1)"
    by (rule round_ge[OF R, where m = 1 and k = 0]) (use b in simp_all)
  have "23 / 16 \<le> (889 / 4) / (152::real)" by simp
  also have "\<dots> \<le> f64 fp (g + 1) / f64 fp (b + 1)"
    using num den1 den0 by (intro frac_le) simp_all
  finally have q: "23 / 16 \<le> f64 fp (g + 1) / f64 fp (b + 1)" .
  have q': "23 / 16 \<le> f64 fp (f64 fp (g + 1) / f64 fp (b + 1))"
    by (rule round_ge[OF R q, where m = 23 and k = 4]) simp_all
  have nv: "5865 / 16 \<le> f64 fp (f64 fp (f64 fp (g + 1) / f64 fp (b + 1)) * 255)"
    by (rule round_ge[OF R, where m = 5865 and k = 4]) (use q' in simp_all)
  have a: "5865 / 32 \<le> f64 fp (f64 fp (f64 fp (f64 fp (g + 1) / f64 fp (b + 1)) * 255) * 0.5)"
    by (rule round_ge[OF R, where m = 5865 and k = 5]) (use nv in simp_all)
  have c: "885 / 8 \<le> f64 fp (g * f64 fp (1 - 0.5))"
    unfolding half by (rule round_ge[OF R, where m = 885 and k = 3]) (use g in simp_all)
  have blend: "9405 / 32 \<le> f64 fp (f64 fp (f64 fp (f64 fp (f64 fp (g + 1) / f64 fp (b + 1)) * 255) * 0.5)
                       + f64 fp (g * f64 fp (1 - 0.5)))"
    by (rule round_ge[OF R, where m = 9405 and k = 5]) (use a c in simp_all)
  have n: "1 < width img * height img" by (simp add: img_def)
  have "normPixel fp g b = 255"
    by (rule normPixel_saturated[OF i]) (use blend in simp)
  then show "normField fp img ! 1 = 255"
    unfolding g_def b_def normField_nth[OF n] .
  have a': "f64 fp (min 255 (max 0 (f64 fp (f64 fp (f64 fp (g + 1) / f64 fp (b + 1)) * 255))) * 0.5)
      \<le> 255 / 2"
    by (rule round_le[OF R, where m = 255 and k = 1]) simp_all
  have c': "f64 fp (g * f64 fp (1 - 0.5)) \<le> 495 / 4"
    unfolding half by (rule round_le[OF R, where m = 495 and k = 2]) (use g in simp_all)
  have s: "f64 fp (f64 fp (min 255 (max 0 (f64 fp (f64 fp (f64 fp (g + 1) / f64 fp (b + 1)) * 255))) * 0.5)
        + f64 fp (g * f64 fp (1 - 0.5))) \<le> 1005 / 4"
    by (rule round_le[OF R, where m = 1005 and k = 2]) (use a' c' in simp_all)
  have "clampFirstPixel fp g b \<le> 1005 / 4"
    unfolding clampFirstPixel_blend
    by (rule round_le[OF S s, where m = 1005 and k = 2]) simp_all
  then show "clampFirstPixel fp (grayField fp img ! 1) (bgField fp img ! 1) \<le> 1005 / 4"
    by (simp add: g_def b_def)
qed

text \<open>
  In arithmetic without rounding \<open>clampFirstPixel\<close> is the formula of the specification.
\<close>

lemma clampFirstPixel_exact:
  "clampFirstPixel exactArithmetic g b = 0.5 * min 255 (max 0 ((g + 1) / (b + 1) * 255)) + 0.5 * g"
  by (simp add: clampFirstPixel_def exactArithmetic_def blendFactor_def Let_def mult.commute)

text \<open>
  C5 (as the specification states it).  In the picture of three pixels in a row, black,
  \<open>(240, 240, 240)\<close>, black, the value that the code stores for the grey pixel is not the
  value obtained by clamping the normalized value before the blend: not in arithmetic
  without rounding, where the latter is \<open>0.5 * min 255 (max 0 normalized) + 0.5 * gray\<close>,
  and not under any rounding that satisfies the assumptions.  The code stores 255.
\<close>

theorem clamp_before_blend_counterexample:
  "normField exactArithmetic
      \<lparr>data = [0, 0, 0, 255, 240, 240, 240, 255, 0, 0, 0, 255], width = 3, height = 1\<rparr> ! 1
     \<noteq> 0.5 * min 255 (max 0
          ((grayField exactArithmetic
              \<lparr>data = [0, 0, 0, 255, 240, 240, 240, 255, 0, 0, 0, 255], width = 3, height = 1\<rparr> ! 1 + 1)
           / (bgField exactArithmetic
              \<lparr>data = [0, 0, 0, 255, 240, 240, 240, 255, 0, 0, 0, 255], width = 3, height = 1\<rparr> ! 1 + 1)
           * 255))
         + 0.5 * grayField exactArithmetic
              \<lparr>data = [0, 0, 0, 255, 240, 240, 240, 255, 0, 0, 0, 255], width = 3, height = 1\<rparr> ! 1
   \<and> ieee exactArithmetic
   \<and> \<not> (\<exists>fp. ieee fp \<and>
          normField fp \<lparr>data = [0, 0, 0, 255, 240, 240, 240, 255, 0, 0, 0, 255], width = 3, height = 1\<rparr> ! 1
          = clampFirstPixel fp
              (grayField fp \<lparr>data = [0, 0, 0, 255, 240, 240, 240, 255, 0, 0, 0, 255], width = 3, height = 1\<rparr> ! 1)
              (bgField fp \<lparr>data = [0, 0, 0, 255, 240, 240, 240, 255, 0, 0, 0, 255], width = 3, height = 1\<rparr> ! 1))
   \<and> \<not> (\<exists>fp. ieee fp \<and>
          normField fp \<lparr>data = [0, 0, 0, 255, 240, 240, 240, 255, 0, 0, 0, 255], width = 3, height = 1\<rparr> ! 1
          \<noteq> 255)"
proof -
  let ?img = "\<lparr>data = [0, 0, 0, 255, 240, 240, 240, 255, 0, 0, 0, 255], width = 3, height = 1\<rparr>"
  have differ: "normField fp ?img ! 1 \<noteq> clampFirstPixel fp (grayField fp ?img ! 1) (bgField fp ?img ! 1)"
    if "ieee fp" for fp
    using three_pixel_norm[OF that] by simp
  have 1: "normField exactArithmetic ?img ! 1 \<noteq>
      0.5 * min 255 (max 0 ((grayField exactArithmetic ?img ! 1 + 1)
                            / (bgField exactArithmetic ?img ! 1 + 1) * 255))
      + 0.5 * grayField exactArithmetic ?img ! 1"
    using differ[OF ieee_exactArithmetic] unfolding clampFirstPixel_exact .
  have 3: "\<not> (\<exists>fp. ieee fp \<and> normField fp ?img ! 1
      = clampFirstPixel fp (grayField fp ?img ! 1) (bgField fp ?img ! 1))"
    using differ by blast
  have 4: "\<not> (\<exists>fp. ieee fp \<and> normField fp ?img ! 1 \<noteq> 255)"
    using three_pixel_norm(1) by blast
  from 1 ieee_exactArithmetic 3 4 show ?thesis by (intro conjI)
qed

theorem normField_blend_then_clamp_witness:
  "ieee exactArithmetic
   \<and> wfImage \<lparr>data = [0, 0, 0, 255, 240, 240, 240, 255, 0, 0, 0, 255], width = 3, height = 1\<rparr>
   \<and> normField exactArithmetic
        \<lparr>data = [0, 0, 0, 255, 240, 240, 240, 255, 0, 0, 0, 255], width = 3, height = 1\<rparr> ! 1 = 255
   \<and> normField exactArithmetic
        \<lparr>data = [0, 0, 0, 255, 240, 240, 240, 255, 0, 0, 0, 255], width = 3, height = 1\<rparr> ! 0
      = clampFirstPixel exactArithmetic 0
          (bgField exactArithmetic
             \<lparr>data = [0, 0, 0, 255, 240, 240, 240, 255, 0, 0, 0, 255], width = 3, height = 1\<rparr> ! 0)"
proof -
  let ?img = "\<lparr>data = [0, 0, 0, 255, 240, 240, 240, 255, 0, 0, 0, 255], width = 3, height = 1\<rparr>"
  note fp = ieee_exactArithmetic
  note wf = three_pixel_gray(1)[OF fp]
  have i1: "1 < width ?img * height ?img" and i0: "0 < width ?img * height ?img" by simp_all
  have x: "f64 exactArithmetic = (\<lambda>x. x)" "f32 exactArithmetic = (\<lambda>x. x)"
    by (simp_all add: exactArithmetic_def)
  have g1: "grayField exactArithmetic ?img ! 1 = 240"
    by (simp add: grayField_def x)
  have g0: "grayField exactArithmetic ?img ! 0 = 0"
    by (rule three_pixel_gray(2)[OF fp])
  have b1: "bgField exactArithmetic ?img ! 1 \<le> 151" "0 \<le> bgField exactArithmetic ?img ! 1"
    using three_pixel_background[OF fp] by simp_all
  have b0: "0 \<le> bgField exactArithmetic ?img ! 0"
    by (rule bgField_nonneg[OF fp i0])
  define B1 where "B1 = bgField exactArithmetic ?img ! 1"
  define B0 where "B0 = bgField exactArithmetic ?img ! 0"
  have sat: "255 \<le> (240 + 1) / (B1 + 1) * 255 * 0.5 + 240 * (1 - 0.5)"
  proof -
    define q where "q = (240 + 1) / (B1 + 1)"
    have "(240 + 1) / 152 \<le> q"
      unfolding q_def using b1 by (intro divide_left_mono) (simp_all add: B1_def)
    then have "3 / 2 \<le> q" by simp
    then have "255 \<le> q * 255 * 0.5 + 240 * (1 - 0.5)" by simp
    then show ?thesis unfolding q_def .
  qed
  have low: "(0 + 1) / (B0 + 1) * 255 \<le> 255"
  proof -
    define q where "q = (0 + 1) / (B0 + 1)"
    have "q \<le> 1" unfolding q_def using b0 by (simp add: B0_def)
    then have "q * 255 \<le> 255" by simp
    then show ?thesis unfolding q_def .
  qed
  have z255: "(0::real) \<le> 255" by simp
  have n1: "normField exactArithmetic ?img ! 1 = 255"
    using normField_blend_then_clamp[OF fp wf i1] sat
    unfolding Let_def g1 x B1_def by blast
  have n0: "normField exactArithmetic ?img ! 0
      = clampFirstPixel exactArithmetic 0 (bgField exactArithmetic ?img ! 0)"
    using normField_blend_then_clamp[OF fp wf i0] low z255
    unfolding Let_def g0 x B0_def by blast
  from fp wf n1 n0 show ?thesis by (intro conjI)
qed

subsection \<open>The output image\<close>

lemma length_concat_quads:
  "length (concat (map (\<lambda>i. [a i, b i, c i, d i]) [0..<n])) = 4 * n"
  by (induction n) simp_all

lemma concat_quads_nth:
  assumes "i < n"
  shows "concat (map (\<lambda>i. [a i, b i, c i, d i]) [0..<n]) ! (i * 4) = a i"
    and "concat (map (\<lambda>i. [a i, b i, c i, d i]) [0..<n]) ! (i * 4 + 1) = b i"
    and "concat (map (\<lambda>i. [a i, b i, c i, d i]) [0..<n]) ! (i * 4 + 2) = c i"
    and "concat (map (\<lambda>i. [a i, b i, c i, d i]) [0..<n]) ! (i * 4 + 3) = d i"
  using assms
proof (induction n)
  case 0
  {
    case 1 then show ?case by simp
  next
    case 2 then show ?case by simp
  next
    case 3 then show ?case by simp
  next
    case 4 then show ?case by simp
  }
next
  case (Suc n)
  have split: "concat (map (\<lambda>i. [a i, b i, c i, d i]) [0..<Suc n]) =
      concat (map (\<lambda>i. [a i, b i, c i, d i]) [0..<n]) @ [a n, b n, c n, d n]"
    by simp
  note len = length_concat_quads[of a b c d n]
  {
    case 1
    show ?case
    proof (cases "i < n")
      case True
      then show ?thesis unfolding split using Suc.IH(1) len by (simp add: nth_append)
    next
      case False
      with 1 have "i = n" by simp
      then show ?thesis unfolding split using len by (simp add: nth_append mult.commute)
    qed
  next
    case 2
    show ?case
    proof (cases "i < n")
      case True
      then show ?thesis unfolding split using Suc.IH(2) len by (simp add: nth_append)
    next
      case False
      with 2 have "i = n" by simp
      then show ?thesis unfolding split using len by (simp add: nth_append mult.commute)
    qed
  next
    case 3
    show ?case
    proof (cases "i < n")
      case True
      then show ?thesis unfolding split using Suc.IH(3) len by (simp add: nth_append)
    next
      case False
      with 3 have "i = n" by simp
      then show ?thesis unfolding split using len by (simp add: nth_append mult.commute)
    qed
  next
    case 4
    show ?case
    proof (cases "i < n")
      case True
      then show ?thesis unfolding split using Suc.IH(4) len by (simp add: nth_append)
    next
      case False
      with 4 have "i = n" by simp
      then show ?thesis unfolding split using len by (simp add: nth_append mult.commute)
    qed
  }
qed

lemma toUint8Clamped_le: "toUint8Clamped v \<le> 255"
  by (simp add: toUint8Clamped_def)

lemma removeBleeding_data:
  "data (removeBleeding fp img) =
     concat (map (\<lambda>i. [toUint8Clamped (mathRound (gaussianBlur fp (normField fp img) (width img) (height img) 2 ! i)),
                        toUint8Clamped (mathRound (gaussianBlur fp (normField fp img) (width img) (height img) 2 ! i)),
                        toUint8Clamped (mathRound (gaussianBlur fp (normField fp img) (width img) (height img) 2 ! i)),
                        255])
                 [0..<width img * height img])"
  by (simp add: removeBleeding_def Let_def)

lemma removeBleeding_size:
  "width (removeBleeding fp img) = width img" "height (removeBleeding fp img) = height img"
  by (simp_all add: removeBleeding_def Let_def)

lemma removeBleeding_bytes: "list_all (\<lambda>b. b \<le> 255) (data (removeBleeding fp img))"
  unfolding removeBleeding_data
  by (simp add: list_all_iff toUint8Clamped_le)

text \<open>
  C7.  For every well-formed image and every pixel \<open>i\<close> of it, the red, green and blue
  bytes of the pixel in the output of the filter are the same byte, namely the rounded and
  clamped value of the denoised field, every byte is at most 255, and the alpha byte is 255.
  The output has the size of the input and is again a well-formed image.  This holds
  whatever the floating-point arithmetic rounds to.
\<close>

theorem removeBleeding_channels:
  assumes wf: "wfImage img" and i: "i < width img * height img"
  shows "let out = data (removeBleeding fp img)
         in out ! (i * 4) = out ! (i * 4 + 1)
          \<and> out ! (i * 4 + 1) = out ! (i * 4 + 2)
          \<and> out ! (i * 4) \<le> 255 \<and> out ! (i * 4 + 1) \<le> 255 \<and> out ! (i * 4 + 2) \<le> 255
          \<and> out ! (i * 4 + 3) = 255
          \<and> out ! (i * 4) =
              toUint8Clamped (mathRound (gaussianBlur fp (normField fp img) (width img) (height img) 2 ! i))
          \<and> length out = 4 * (width img * height img)
          \<and> width (removeBleeding fp img) = width img
          \<and> height (removeBleeding fp img) = height img
          \<and> wfImage (removeBleeding fp img)"
proof -
  let ?v = "\<lambda>i. toUint8Clamped (mathRound (gaussianBlur fp (normField fp img) (width img) (height img) 2 ! i))"
  let ?out = "data (removeBleeding fp img)"
  have out: "?out = concat (map (\<lambda>i. [?v i, ?v i, ?v i, 255]) [0..<width img * height img])"
    by (rule removeBleeding_data)
  have r: "?out ! (i * 4) = ?v i" and g: "?out ! (i * 4 + 1) = ?v i"
    and b: "?out ! (i * 4 + 2) = ?v i" and a: "?out ! (i * 4 + 3) = 255"
    unfolding out using concat_quads_nth[OF i, of ?v ?v ?v "\<lambda>i. 255"] by simp_all
  have len: "length ?out = 4 * (width img * height img)"
    unfolding out by (rule length_concat_quads)
  have wf': "wfImage (removeBleeding fp img)"
    using len removeBleeding_bytes[of fp img] by (simp add: wfImage_def removeBleeding_size)
  show ?thesis
    unfolding Let_def r g b a using len wf' toUint8Clamped_le[of "mathRound _"]
    by (simp add: removeBleeding_size toUint8Clamped_le)
qed

theorem removeBleeding_channels_witness:
  "wfImage \<lparr>data = [0, 0, 0, 255, 240, 240, 240, 255, 0, 0, 0, 255], width = 3, height = 1\<rparr> \<and>
   data (removeBleeding exactArithmetic
     \<lparr>data = [0, 0, 0, 255, 240, 240, 240, 255, 0, 0, 0, 255], width = 3, height = 1\<rparr>) ! 4
     = data (removeBleeding exactArithmetic
     \<lparr>data = [0, 0, 0, 255, 240, 240, 240, 255, 0, 0, 0, 255], width = 3, height = 1\<rparr>) ! 5 \<and>
   data (removeBleeding exactArithmetic
     \<lparr>data = [0, 0, 0, 255, 240, 240, 240, 255, 0, 0, 0, 255], width = 3, height = 1\<rparr>) ! 5
     = data (removeBleeding exactArithmetic
     \<lparr>data = [0, 0, 0, 255, 240, 240, 240, 255, 0, 0, 0, 255], width = 3, height = 1\<rparr>) ! 6 \<and>
   data (removeBleeding exactArithmetic
     \<lparr>data = [0, 0, 0, 255, 240, 240, 240, 255, 0, 0, 0, 255], width = 3, height = 1\<rparr>) ! 4 \<le> 255 \<and>
   data (removeBleeding exactArithmetic
     \<lparr>data = [0, 0, 0, 255, 240, 240, 240, 255, 0, 0, 0, 255], width = 3, height = 1\<rparr>) ! 7 = 255 \<and>
   length (data (removeBleeding exactArithmetic
     \<lparr>data = [0, 0, 0, 255, 240, 240, 240, 255, 0, 0, 0, 255], width = 3, height = 1\<rparr>)) = 12"
proof -
  let ?img = "\<lparr>data = [0, 0, 0, 255, 240, 240, 240, 255, 0, 0, 0, 255], width = 3, height = 1\<rparr>"
  note wf = three_pixel_gray(1)[OF ieee_exactArithmetic]
  have i: "1 < width ?img * height ?img" by simp
  from removeBleeding_channels[OF wf i, of exactArithmetic] wf
  show ?thesis unfolding Let_def by simp
qed

end
